theory Spec2Isabelle
  imports Main "HOL-Library.Multiset"
begin

section \<open>Data model of treemodel/schema.js\<close>

text \<open>
  The errors the code can raise: the two \<open>CKEditorError\<close>s of \<open>registerItem\<close> and
  \<open>_getItem\<close>, and the JavaScript \<open>TypeError\<close> of a method call on \<open>undefined\<close>
  (what \<open>Map.get\<close> returns for a missing key).
\<close>

datatype error = SchemaItemExists | SchemaNoItem | TypeError

text \<open>One entry \<open>{ path, attribute }\<close> of \<open>_allowed\<close> or \<open>_disallowed\<close>; an attribute
  that is not set (\<open>undefined\<close>) is \<open>None\<close>.\<close>

record pathItem =
  path :: "string list"
  attribute :: "string option"

record SchemaItem =
  allowed :: "pathItem list"
  disallowed :: "pathItem list"

record Schema =
  items :: "string \<rightharpoonup> SchemaItem"
  extensionChains :: "string \<rightharpoonup> string list"

text \<open>A path argument is an array of names or one string of names separated by spaces.\<close>

datatype pathArg = Str string | Arr "string list"

record SchemaQuery =
  name :: string
  inside :: pathArg
  queryAttribute :: "string option"

datatype pathType = ALLOW | DISALLOW

datatype member = Allowed | Disallowed

text \<open>The part of the tree model that \<open>_makeItemsPathFromPosition\<close> reads: an element has
  a name and a parent (\<open>null\<close> at a root); a position has a parent.\<close>

datatype element = Element (elementName: string) (elementParent: "element option")

datatype position = Position (positionParent: "element option")

section \<open>SchemaItem\<close>

text \<open>\<open>String.prototype.split( ' ' )\<close>: the pieces between single spaces, empty pieces
  included; the result is never empty.\<close>

fun splitSpace :: "string \<Rightarrow> string list" where
  "splitSpace [] = [[]]"
| "splitSpace (c # cs) =
     (if c = CHR '' '' then [] # splitSpace cs
      else (c # hd (splitSpace cs)) # tl (splitSpace cs))"

definition newSchemaItem :: SchemaItem where
  "newSchemaItem = \<lparr>allowed = [], disallowed = []\<rparr>"

text \<open>\<open>_addPath\<close>: a string path is split, the entry is pushed at the end of the member.\<close>

definition addPath :: "member \<Rightarrow> pathArg \<Rightarrow> string option \<Rightarrow> SchemaItem \<Rightarrow> SchemaItem" where
  "addPath m p attr item =
     (let names = (case p of Str s \<Rightarrow> splitSpace s | Arr a \<Rightarrow> a) in
      case m of
        Allowed \<Rightarrow> item\<lparr>allowed := allowed item @ [\<lparr>path = names, attribute = attr\<rparr>]\<rparr>
      | Disallowed \<Rightarrow> item\<lparr>disallowed := disallowed item @ [\<lparr>path = names, attribute = attr\<rparr>]\<rparr>)"

definition addAllowed :: "pathArg \<Rightarrow> string option \<Rightarrow> SchemaItem \<Rightarrow> SchemaItem" where
  "addAllowed p attr item = addPath Allowed p attr item"

definition addDisallowed :: "pathArg \<Rightarrow> string option \<Rightarrow> SchemaItem \<Rightarrow> SchemaItem" where
  "addDisallowed p attr item = addPath Disallowed p attr item"

text \<open>\<open>_getPaths\<close>: the paths of the entries whose attribute is identical to the given one,
  in the order of the source array.\<close>

definition getPaths :: "pathType \<Rightarrow> string option \<Rightarrow> SchemaItem \<Rightarrow> string list list" where
  "getPaths ty attr item =
     map path (filter (\<lambda>i. attribute i = attr)
       (if ty = ALLOW then allowed item else disallowed item))"

text \<open>\<open>chain.indexOf( itemPath[ 0 ] ) > -1\<close>: on an empty \<open>itemPath\<close> the head is
  \<open>undefined\<close>, which no chain of names contains.\<close>

definition headInChain :: "string list \<Rightarrow> string list \<Rightarrow> bool" where
  "headInChain chain itemPath = (case itemPath of [] \<Rightarrow> False | r # _ \<Rightarrow> r \<in> set chain)"

text \<open>The inner loop of \<open>_hasMatchingPath\<close> over the names of the path to check; it
  returns what is left of \<open>itemPath\<close>. A name with no extension chain makes
  \<open>chain.indexOf\<close> a call on \<open>undefined\<close>.\<close>

fun matchNames :: "(string \<rightharpoonup> string list) \<Rightarrow> string list \<Rightarrow> string list \<Rightarrow> error + string list" where
  "matchNames extChains [] itemPath = Inr itemPath"
| "matchNames extChains (checkName # rest) itemPath =
     (case extChains checkName of
        None \<Rightarrow> Inl TypeError
      | Some chain \<Rightarrow>
          matchNames extChains rest (if headInChain chain itemPath then tl itemPath else itemPath))"

text \<open>The outer loop of \<open>_hasMatchingPath\<close> over the registered paths.\<close>

fun matchPaths :: "(string \<rightharpoonup> string list) \<Rightarrow> string list \<Rightarrow> string list list \<Rightarrow> error + bool" where
  "matchPaths extChains checkPath [] = Inr False"
| "matchPaths extChains checkPath (itemPath # rest) =
     (case matchNames extChains checkPath itemPath of
        Inl e \<Rightarrow> Inl e
      | Inr left \<Rightarrow> if length left = 0 then Inr True else matchPaths extChains checkPath rest)"

definition hasMatchingPath ::
  "Schema \<Rightarrow> pathType \<Rightarrow> string list \<Rightarrow> string option \<Rightarrow> SchemaItem \<Rightarrow> error + bool" where
  "hasMatchingPath schema ty checkPath attr item =
     matchPaths (extensionChains schema) checkPath (getPaths ty attr item)"

section \<open>Schema\<close>

definition hasItem :: "Schema \<Rightarrow> string \<Rightarrow> bool" where
  "hasItem s itemName = (items s itemName \<noteq> None)"

text \<open>\<open>hasItem\<close> on the optional argument of \<open>registerItem\<close>: the keys of \<open>_items\<close> are
  names, so \<open>null\<close> is none of them.\<close>

definition hasItemOpt :: "Schema \<Rightarrow> string option \<Rightarrow> bool" where
  "hasItemOpt s isExtending = (case isExtending of None \<Rightarrow> False | Some b \<Rightarrow> hasItem s b)"

text \<open>\<open>!!isExtending\<close>: \<open>null\<close> and the empty string are falsy.\<close>

definition truthy :: "string option \<Rightarrow> bool" where
  "truthy isExtending = (case isExtending of None \<Rightarrow> False | Some b \<Rightarrow> b \<noteq> [])"

definition getItem :: "Schema \<Rightarrow> string \<Rightarrow> error + SchemaItem" where
  "getItem s itemName =
     (if \<not> hasItem s itemName then Inl SchemaNoItem
      else case items s itemName of None \<Rightarrow> Inl SchemaNoItem | Some item \<Rightarrow> Inr item)"

text \<open>
  \<open>registerItem\<close> returns the outcome and the schema as the call leaves it, also when it
  throws. The second \<open>hasItem( isExtending )\<close> runs after \<open>_items.set\<close>.
\<close>

definition registerItem :: "string \<Rightarrow> string option \<Rightarrow> Schema \<Rightarrow> (error + unit) \<times> Schema" where
  "registerItem itemName isExtending s =
     (if hasItem s itemName then (Inl SchemaItemExists, s)
      else if truthy isExtending \<and> \<not> hasItemOpt s isExtending then (Inl SchemaNoItem, s)
      else
        let s1 = s\<lparr>items := (items s)(itemName \<mapsto> newSchemaItem)\<rparr> in
        if hasItemOpt s1 isExtending then
          (case extensionChains s1 (the isExtending) of
             None \<Rightarrow> (Inl TypeError, s1)
           | Some chain \<Rightarrow>
               (Inr (), s1\<lparr>extensionChains := (extensionChains s1)(itemName \<mapsto> chain @ [itemName])\<rparr>))
        else (Inr (), s1\<lparr>extensionChains := (extensionChains s1)(itemName \<mapsto> [itemName])\<rparr>))"

definition allow :: "SchemaQuery \<Rightarrow> Schema \<Rightarrow> (error + unit) \<times> Schema" where
  "allow query s =
     (case getItem s (name query) of
        Inl e \<Rightarrow> (Inl e, s)
      | Inr item \<Rightarrow>
          (Inr (), s\<lparr>items := (items s)(name query \<mapsto>
                       addAllowed (inside query) (queryAttribute query) item)\<rparr>))"

definition disallow :: "SchemaQuery \<Rightarrow> Schema \<Rightarrow> (error + unit) \<times> Schema" where
  "disallow query s =
     (case getItem s (name query) of
        Inl e \<Rightarrow> (Inl e, s)
      | Inr item \<Rightarrow>
          (Inr (), s\<lparr>items := (items s)(name query \<mapsto>
                       addDisallowed (inside query) (queryAttribute query) item)\<rparr>))"

text \<open>\<open>chain.map( name => this._getItem( name ) )\<close>: the first unregistered name throws.\<close>

fun getItems :: "Schema \<Rightarrow> string list \<Rightarrow> error + SchemaItem list" where
  "getItems s [] = Inr []"
| "getItems s (n # ns) =
     (case getItem s n of
        Inl e \<Rightarrow> Inl e
      | Inr item \<Rightarrow> (case getItems s ns of Inl e \<Rightarrow> Inl e | Inr rest \<Rightarrow> Inr (item # rest)))"

text \<open>Each of the two loops of \<open>checkQuery\<close> over \<open>schemaItems\<close>: it stops at the first
  item with a matching path of the given type.\<close>

fun anyMatchingPath ::
  "Schema \<Rightarrow> pathType \<Rightarrow> string list \<Rightarrow> string option \<Rightarrow> SchemaItem list \<Rightarrow> error + bool" where
  "anyMatchingPath s ty checkPath attr [] = Inr False"
| "anyMatchingPath s ty checkPath attr (schemaItem # rest) =
     (case hasMatchingPath s ty checkPath attr schemaItem of
        Inl e \<Rightarrow> Inl e
      | Inr found \<Rightarrow> if found then Inr True else anyMatchingPath s ty checkPath attr rest)"

definition checkQuery :: "SchemaQuery \<Rightarrow> Schema \<Rightarrow> error + bool" where
  "checkQuery query s =
     (if \<not> hasItem s (name query) then Inr False
      else
        let checkPath = (case inside query of Str str \<Rightarrow> splitSpace str | Arr a \<Rightarrow> a) in
        case extensionChains s (name query) of
          None \<Rightarrow> Inl TypeError
        | Some chain \<Rightarrow>
            (case getItems s chain of
               Inl e \<Rightarrow> Inl e
             | Inr schemaItems \<Rightarrow>
                 (case anyMatchingPath s DISALLOW checkPath (queryAttribute query) schemaItems of
                    Inl e \<Rightarrow> Inl e
                  | Inr found \<Rightarrow>
                      if found then Inr False
                      else anyMatchingPath s ALLOW checkPath (queryAttribute query) schemaItems)))"

text \<open>The \<open>while\<close> loop of \<open>_makeItemsPathFromPosition\<close>: it pushes the name of each
  parent, from the nearest one outwards.\<close>

fun pushParentNames :: "element option \<Rightarrow> string list \<Rightarrow> string list" where
  "pushParentNames None names = names"
| "pushParentNames (Some (Element n p)) names = pushParentNames p (names @ [n])"

definition makeItemsPathFromPosition :: "position \<Rightarrow> string list" where
  "makeItemsPathFromPosition pos = rev (pushParentNames (positionParent pos) [])"

definition checkAtPosition :: "position \<Rightarrow> string \<Rightarrow> string option \<Rightarrow> Schema \<Rightarrow> error + bool" where
  "checkAtPosition pos n attr s =
     (if \<not> hasItem s n then Inr False
      else checkQuery \<lparr>name = n, inside = Arr (makeItemsPathFromPosition pos),
                       queryAttribute = attr\<rparr> s)"

text \<open>The constructor: three default entities and one default rule.\<close>

definition emptySchema :: Schema where
  "emptySchema = \<lparr>items = Map.empty, extensionChains = Map.empty\<rparr>"

definition newSchema :: Schema where
  "newSchema =
     (let s1 = snd (registerItem ''$inline'' None emptySchema);
          s2 = snd (registerItem ''$block'' None s1);
          s3 = snd (registerItem ''$text'' (Some ''$inline'') s2)
      in snd (allow \<lparr>name = ''$inline'', inside = Str ''$block'', queryAttribute = None\<rparr> s3))"

section \<open>Sequences of operations\<close>

text \<open>
  The public operations of a schema. The three that assign to the schema return it updated;
  \<open>checkQuery\<close> and \<open>checkAtPosition\<close> only read it in this model (their scan over
  copies of the stored arrays is modelled over a store in the next section). \<open>exec\<close> gives
  the schema after a call, whether the call returned or threw.
\<close>

datatype operation =
    RegisterItem string "string option"
  | Allow SchemaQuery
  | Disallow SchemaQuery
  | CheckQuery SchemaQuery
  | CheckAtPosition position string "string option"

fun exec :: "operation \<Rightarrow> Schema \<Rightarrow> Schema" where
  "exec (RegisterItem itemName isExtending) s = snd (registerItem itemName isExtending s)"
| "exec (Allow query) s = snd (allow query s)"
| "exec (Disallow query) s = snd (disallow query s)"
| "exec (CheckQuery query) s = s"
| "exec (CheckAtPosition pos n attr) s = s"

fun execAll :: "operation list \<Rightarrow> Schema \<Rightarrow> Schema" where
  "execAll [] s = s"
| "execAll (opn # opns) s = execAll opns (exec opn s)"

fun isRuleOp :: "operation \<Rightarrow> bool" where
  "isRuleOp (Allow query) = True"
| "isRuleOp (Disallow query) = True"
| "isRuleOp opn = False"

section \<open>The stored path arrays as mutable objects\<close>

text \<open>
  \<open>_hasMatchingPath\<close> consumes paths with \<open>Array.prototype.shift\<close>, which changes the array
  it is called on. To follow which arrays the scan changes, this second model keeps every
  path array in a store, at an address; an entry of \<open>_allowed\<close> or \<open>_disallowed\<close> holds
  the address of its path. \<open>nextRef\<close> is the first address not yet in use.
\<close>

record pathItemRef =
  pathRef :: nat
  refAttribute :: "string option"

record SchemaItemRef =
  allowedRefs :: "pathItemRef list"
  disallowedRefs :: "pathItemRef list"

record SchemaStore =
  itemRefs :: "string \<rightharpoonup> SchemaItemRef"
  chainsOf :: "string \<rightharpoonup> string list"
  arrays :: "nat \<Rightarrow> string list"
  nextRef :: nat

text \<open>\<open>slice()\<close> makes a new array with the same elements.\<close>

definition sliceSt :: "nat \<Rightarrow> SchemaStore \<Rightarrow> nat \<times> SchemaStore" where
  "sliceSt r st =
     (nextRef st, st\<lparr>arrays := (arrays st)(nextRef st := arrays st r), nextRef := Suc (nextRef st)\<rparr>)"

text \<open>\<open>shift()\<close> removes the first element of the array at the address, in place.\<close>

definition shiftSt :: "nat \<Rightarrow> SchemaStore \<Rightarrow> SchemaStore" where
  "shiftSt r st = st\<lparr>arrays := (arrays st)(r := tl (arrays st r))\<rparr>"

text \<open>The loop of \<open>_getPaths\<close>: one \<open>item.path.slice()\<close> for each entry with the attribute.\<close>

fun copyPathsSt :: "string option \<Rightarrow> pathItemRef list \<Rightarrow> SchemaStore \<Rightarrow> nat list \<times> SchemaStore" where
  "copyPathsSt attr [] st = ([], st)"
| "copyPathsSt attr (item # source) st =
     (if refAttribute item = attr then
        (case sliceSt (pathRef item) st of
           (r, st1) \<Rightarrow> (case copyPathsSt attr source st1 of (rs, st2) \<Rightarrow> (r # rs, st2)))
      else copyPathsSt attr source st)"

definition getPathsSt ::
  "pathType \<Rightarrow> string option \<Rightarrow> SchemaItemRef \<Rightarrow> SchemaStore \<Rightarrow> nat list \<times> SchemaStore" where
  "getPathsSt ty attr item st =
     copyPathsSt attr (if ty = ALLOW then allowedRefs item else disallowedRefs item) st"

fun matchNamesSt :: "string list \<Rightarrow> nat \<Rightarrow> SchemaStore \<Rightarrow> (error + unit) \<times> SchemaStore" where
  "matchNamesSt [] itemPath st = (Inr (), st)"
| "matchNamesSt (checkName # rest) itemPath st =
     (case chainsOf st checkName of
        None \<Rightarrow> (Inl TypeError, st)
      | Some chain \<Rightarrow>
          matchNamesSt rest itemPath
            (if headInChain chain (arrays st itemPath) then shiftSt itemPath st else st))"

fun matchPathsSt :: "string list \<Rightarrow> nat list \<Rightarrow> SchemaStore \<Rightarrow> (error + bool) \<times> SchemaStore" where
  "matchPathsSt checkPath [] st = (Inr False, st)"
| "matchPathsSt checkPath (itemPath # rest) st =
     (case matchNamesSt checkPath itemPath st of
        (Inl e, st1) \<Rightarrow> (Inl e, st1)
      | (Inr u, st1) \<Rightarrow>
          if length (arrays st1 itemPath) = 0 then (Inr True, st1)
          else matchPathsSt checkPath rest st1)"

definition hasMatchingPathSt ::
  "pathType \<Rightarrow> string list \<Rightarrow> string option \<Rightarrow> SchemaItemRef \<Rightarrow> SchemaStore
     \<Rightarrow> (error + bool) \<times> SchemaStore" where
  "hasMatchingPathSt ty checkPath attr item st =
     (case getPathsSt ty attr item st of (itemPaths, st1) \<Rightarrow> matchPathsSt checkPath itemPaths st1)"

definition hasItemSt :: "SchemaStore \<Rightarrow> string \<Rightarrow> bool" where
  "hasItemSt st itemName = (itemRefs st itemName \<noteq> None)"

definition getItemSt :: "SchemaStore \<Rightarrow> string \<Rightarrow> error + SchemaItemRef" where
  "getItemSt st itemName =
     (if \<not> hasItemSt st itemName then Inl SchemaNoItem
      else case itemRefs st itemName of None \<Rightarrow> Inl SchemaNoItem | Some item \<Rightarrow> Inr item)"

fun getItemsSt :: "SchemaStore \<Rightarrow> string list \<Rightarrow> error + SchemaItemRef list" where
  "getItemsSt st [] = Inr []"
| "getItemsSt st (n # ns) =
     (case getItemSt st n of
        Inl e \<Rightarrow> Inl e
      | Inr item \<Rightarrow> (case getItemsSt st ns of Inl e \<Rightarrow> Inl e | Inr rest \<Rightarrow> Inr (item # rest)))"

fun anyMatchingPathSt ::
  "pathType \<Rightarrow> string list \<Rightarrow> string option \<Rightarrow> SchemaItemRef list \<Rightarrow> SchemaStore
     \<Rightarrow> (error + bool) \<times> SchemaStore" where
  "anyMatchingPathSt ty checkPath attr [] st = (Inr False, st)"
| "anyMatchingPathSt ty checkPath attr (schemaItem # rest) st =
     (case hasMatchingPathSt ty checkPath attr schemaItem st of
        (Inl e, st1) \<Rightarrow> (Inl e, st1)
      | (Inr found, st1) \<Rightarrow>
          if found then (Inr True, st1) else anyMatchingPathSt ty checkPath attr rest st1)"

definition checkQuerySt :: "SchemaQuery \<Rightarrow> SchemaStore \<Rightarrow> (error + bool) \<times> SchemaStore" where
  "checkQuerySt query st =
     (if \<not> hasItemSt st (name query) then (Inr False, st)
      else
        let checkPath = (case inside query of Str str \<Rightarrow> splitSpace str | Arr a \<Rightarrow> a) in
        case chainsOf st (name query) of
          None \<Rightarrow> (Inl TypeError, st)
        | Some chain \<Rightarrow>
            (case getItemsSt st chain of
               Inl e \<Rightarrow> (Inl e, st)
             | Inr schemaItems \<Rightarrow>
                 (case anyMatchingPathSt DISALLOW checkPath (queryAttribute query) schemaItems st of
                    (Inl e, st1) \<Rightarrow> (Inl e, st1)
                  | (Inr found, st1) \<Rightarrow>
                      if found then (Inr False, st1)
                      else anyMatchingPathSt ALLOW checkPath (queryAttribute query) schemaItems st1)))"

definition checkAtPositionSt ::
  "position \<Rightarrow> string \<Rightarrow> string option \<Rightarrow> SchemaStore \<Rightarrow> (error + bool) \<times> SchemaStore" where
  "checkAtPositionSt pos n attr st =
     (if \<not> hasItemSt st n then (Inr False, st)
      else checkQuerySt \<lparr>name = n, inside = Arr (makeItemsPathFromPosition pos),
                         queryAttribute = attr\<rparr> st)"

text \<open>
  The operations that change the schema, over the store. An array that the caller passes
  to \<open>allow\<close> or \<open>disallow\<close> is an object too, so a path argument is a string or the
  address of an array in the store. The result of \<open>split\<close> is a new array; \<open>_addPath\<close> then
  stores a \<open>slice()\<close> of the path, whichever of the two it is.
\<close>

datatype pathArgSt = StrSt string | ArrSt nat

record SchemaQuerySt =
  nameSt :: string
  insideSt :: pathArgSt
  attributeSt :: "string option"

definition allocSt :: "string list \<Rightarrow> SchemaStore \<Rightarrow> nat \<times> SchemaStore" where
  "allocSt a st =
     (nextRef st, st\<lparr>arrays := (arrays st)(nextRef st := a), nextRef := Suc (nextRef st)\<rparr>)"

definition newSchemaItemRef :: SchemaItemRef where
  "newSchemaItemRef = \<lparr>allowedRefs = [], disallowedRefs = []\<rparr>"

definition addPathSt ::
  "member \<Rightarrow> pathArgSt \<Rightarrow> string option \<Rightarrow> SchemaItemRef \<Rightarrow> SchemaStore
     \<Rightarrow> SchemaItemRef \<times> SchemaStore" where
  "addPathSt m p attr item st =
     (case (case p of StrSt s \<Rightarrow> allocSt (splitSpace s) st | ArrSt a \<Rightarrow> (a, st)) of
        (r1, st1) \<Rightarrow>
          (case sliceSt r1 st1 of
             (r, st2) \<Rightarrow>
               (case m of
                  Allowed \<Rightarrow>
                    item\<lparr>allowedRefs := allowedRefs item @ [\<lparr>pathRef = r, refAttribute = attr\<rparr>]\<rparr>
                | Disallowed \<Rightarrow>
                    item\<lparr>disallowedRefs := disallowedRefs item @ [\<lparr>pathRef = r, refAttribute = attr\<rparr>]\<rparr>,
                st2)))"

definition allowSt :: "SchemaQuerySt \<Rightarrow> SchemaStore \<Rightarrow> (error + unit) \<times> SchemaStore" where
  "allowSt query st =
     (case getItemSt st (nameSt query) of
        Inl e \<Rightarrow> (Inl e, st)
      | Inr item \<Rightarrow>
          (case addPathSt Allowed (insideSt query) (attributeSt query) item st of
             (item', st1) \<Rightarrow> (Inr (), st1\<lparr>itemRefs := (itemRefs st1)(nameSt query \<mapsto> item')\<rparr>)))"

definition disallowSt :: "SchemaQuerySt \<Rightarrow> SchemaStore \<Rightarrow> (error + unit) \<times> SchemaStore" where
  "disallowSt query st =
     (case getItemSt st (nameSt query) of
        Inl e \<Rightarrow> (Inl e, st)
      | Inr item \<Rightarrow>
          (case addPathSt Disallowed (insideSt query) (attributeSt query) item st of
             (item', st1) \<Rightarrow> (Inr (), st1\<lparr>itemRefs := (itemRefs st1)(nameSt query \<mapsto> item')\<rparr>)))"

definition hasItemOptSt :: "SchemaStore \<Rightarrow> string option \<Rightarrow> bool" where
  "hasItemOptSt st isExtending = (case isExtending of None \<Rightarrow> False | Some b \<Rightarrow> hasItemSt st b)"

definition registerItemSt ::
  "string \<Rightarrow> string option \<Rightarrow> SchemaStore \<Rightarrow> (error + unit) \<times> SchemaStore" where
  "registerItemSt itemName isExtending st =
     (if hasItemSt st itemName then (Inl SchemaItemExists, st)
      else if truthy isExtending \<and> \<not> hasItemOptSt st isExtending then (Inl SchemaNoItem, st)
      else
        let st1 = st\<lparr>itemRefs := (itemRefs st)(itemName \<mapsto> newSchemaItemRef)\<rparr> in
        if hasItemOptSt st1 isExtending then
          (case chainsOf st1 (the isExtending) of
             None \<Rightarrow> (Inl TypeError, st1)
           | Some chain \<Rightarrow>
               (Inr (), st1\<lparr>chainsOf := (chainsOf st1)(itemName \<mapsto> chain @ [itemName])\<rparr>))
        else (Inr (), st1\<lparr>chainsOf := (chainsOf st1)(itemName \<mapsto> [itemName])\<rparr>))"

definition emptyStore :: SchemaStore where
  "emptyStore = \<lparr>itemRefs = Map.empty, chainsOf = Map.empty, arrays = (\<lambda>r. []), nextRef = 0\<rparr>"

definition newSchemaStore :: SchemaStore where
  "newSchemaStore =
     (let st1 = snd (registerItemSt ''$inline'' None emptyStore);
          st2 = snd (registerItemSt ''$block'' None st1);
          st3 = snd (registerItemSt ''$text'' (Some ''$inline'') st2)
      in snd (allowSt \<lparr>nameSt = ''$inline'', insideSt = StrSt ''$block'', attributeSt = None\<rparr> st3))"

text \<open>The schema that a store holds: each address replaced by the array found there.\<close>

definition itemOfRefs :: "SchemaStore \<Rightarrow> SchemaItemRef \<Rightarrow> SchemaItem" where
  "itemOfRefs st item =
     \<lparr>allowed = map (\<lambda>i. \<lparr>path = arrays st (pathRef i), attribute = refAttribute i\<rparr>) (allowedRefs item),
      disallowed = map (\<lambda>i. \<lparr>path = arrays st (pathRef i), attribute = refAttribute i\<rparr>) (disallowedRefs item)\<rparr>"

definition schemaOfStore :: "SchemaStore \<Rightarrow> Schema" where
  "schemaOfStore st =
     \<lparr>items = (\<lambda>n. map_option (itemOfRefs st) (itemRefs st n)), extensionChains = chainsOf st\<rparr>"

text \<open>Every stored entry points to an array that has been allocated.\<close>

definition validItem :: "nat \<Rightarrow> SchemaItemRef \<Rightarrow> bool" where
  "validItem k item =
     (\<forall>i \<in> set (allowedRefs item) \<union> set (disallowedRefs item). pathRef i < k)"

definition validRefs :: "SchemaStore \<Rightarrow> bool" where
  "validRefs st = (\<forall>n item. itemRefs st n = Some item \<longrightarrow> validItem (nextRef st) item)"

text \<open>The names a path argument stands for in a store, and the query with its path as a
  value.\<close>

definition pathNamesSt :: "SchemaStore \<Rightarrow> pathArgSt \<Rightarrow> string list" where
  "pathNamesSt st p = (case p of StrSt str \<Rightarrow> splitSpace str | ArrSt a \<Rightarrow> arrays st a)"

definition queryOfSt :: "SchemaStore \<Rightarrow> SchemaQuerySt \<Rightarrow> SchemaQuery" where
  "queryOfSt st query =
     \<lparr>name = nameSt query,
      inside = (case insideSt query of StrSt str \<Rightarrow> Str str | ArrSt a \<Rightarrow> Arr (arrays st a)),
      queryAttribute = attributeSt query\<rparr>"

text \<open>What the owner of an array can do to it after a call: put other elements in it.\<close>

definition writeSt :: "nat \<Rightarrow> string list \<Rightarrow> SchemaStore \<Rightarrow> SchemaStore" where
  "writeSt a xs st = st\<lparr>arrays := (arrays st)(a := xs)\<rparr>"

text \<open>Between two stores, the items, the chains and every array at an address below \<open>k\<close>
  are the same, and no address has been given up.\<close>

definition unchangedBelow :: "nat \<Rightarrow> SchemaStore \<Rightarrow> SchemaStore \<Rightarrow> bool" where
  "unchangedBelow k st st' =
     (itemRefs st' = itemRefs st \<and> chainsOf st' = chainsOf st \<and> nextRef st \<le> nextRef st' \<and>
      (\<forall>r<k. arrays st' r = arrays st r))"

section \<open>Notions of the specification\<close>

text \<open>The names a path argument stands for.\<close>

definition pathNames :: "pathArg \<Rightarrow> string list" where
  "pathNames p = (case p of Str str \<Rightarrow> splitSpace str | Arr a \<Rightarrow> a)"

text \<open>
  The registry invariant of the specification: the two maps have the same keys, and every
  stored chain consists of registered names and ends with its own entity.
\<close>

definition consistent :: "Schema \<Rightarrow> bool" where
  "consistent s =
     (dom (items s) = dom (extensionChains s) \<and>
      (\<forall>n chain. extensionChains s n = Some chain \<longrightarrow>
         set chain \<subseteq> dom (items s) \<and> chain \<noteq> [] \<and> last chain = n))"

text \<open>
  The matching algorithm in the words of the specification. A candidate element \<open>c\<close>
  ``is-a'' rule element \<open>r\<close> when \<open>r\<close> appears in the extension chain of \<open>c\<close>. A cursor over
  the rule path \<open>R\<close> starts at \<open>0\<close>; the candidate path is consumed once from left to right,
  and each element either advances the cursor (when it is-a the element under the cursor)
  or is skipped. \<open>R\<close> is satisfied when the cursor has passed its last element.
\<close>

definition isA :: "(string \<rightharpoonup> string list) \<Rightarrow> string \<Rightarrow> string \<Rightarrow> bool" where
  "isA extChains c r = (case extChains c of None \<Rightarrow> False | Some chain \<Rightarrow> r \<in> set chain)"

fun greedyCursor :: "(string \<rightharpoonup> string list) \<Rightarrow> string list \<Rightarrow> string list \<Rightarrow> nat \<Rightarrow> nat" where
  "greedyCursor extChains R [] i = i"
| "greedyCursor extChains R (c # cs) i =
     greedyCursor extChains R cs (if i < length R \<and> isA extChains c (R ! i) then Suc i else i)"

definition satisfiedBy :: "(string \<rightharpoonup> string list) \<Rightarrow> string list \<Rightarrow> string list \<Rightarrow> bool" where
  "satisfiedBy extChains R C = (greedyCursor extChains R C 0 = length R)"

text \<open>Entity \<open>n\<close> holds a rule of the given type for attribute \<open>A\<close> that the candidate path
  \<open>P\<close> satisfies.\<close>

definition hasRuleMatching ::
  "Schema \<Rightarrow> pathType \<Rightarrow> string list \<Rightarrow> string option \<Rightarrow> string \<Rightarrow> bool" where
  "hasRuleMatching s ty P A n =
     (case items s n of
        None \<Rightarrow> False
      | Some item \<Rightarrow>
          (\<exists>r \<in> set (if ty = ALLOW then allowed item else disallowed item).
             attribute r = A \<and> satisfiedBy (extensionChains s) (path r) P))"

text \<open>The ancestor names of a position, read from the root to the immediate parent.\<close>

fun ancestorNames :: "element option \<Rightarrow> string list" where
  "ancestorNames None = []"
| "ancestorNames (Some (Element n p)) = ancestorNames p @ [n]"

text \<open>The entries that a sequence of calls adds to one member of one entity, in call order.\<close>

fun addedBy :: "member \<Rightarrow> string \<Rightarrow> operation \<Rightarrow> pathItem list" where
  "addedBy m n (Allow query) =
     (if m = Allowed \<and> name query = n
      then [\<lparr>path = pathNames (inside query), attribute = queryAttribute query\<rparr>] else [])"
| "addedBy m n (Disallow query) =
     (if m = Disallowed \<and> name query = n
      then [\<lparr>path = pathNames (inside query), attribute = queryAttribute query\<rparr>] else [])"
| "addedBy m n opn = []"

definition addedRules :: "member \<Rightarrow> string \<Rightarrow> operation list \<Rightarrow> pathItem list" where
  "addedRules m n opns = concat (map (addedBy m n) opns)"

text \<open>Two items hold the same rules, up to the order in which they were added.\<close>

definition sameRules :: "SchemaItem \<Rightarrow> SchemaItem \<Rightarrow> bool" where
  "sameRules item item' =
     (mset (allowed item) = mset (allowed item') \<and> mset (disallowed item) = mset (disallowed item'))"

section \<open>The schema the constructor builds\<close>

text \<open>The fields of the schema after the constructor, in both models; the examples below
  are evaluated on it.\<close>

lemmas schema_ops =
  registerItem_def allow_def disallow_def getItem_def hasItem_def hasItemOpt_def truthy_def
  addAllowed_def addDisallowed_def addPath_def newSchemaItem_def emptySchema_def

lemma newSchema_items:
  "items newSchema =
     [''$inline'' \<mapsto> \<lparr>allowed = [\<lparr>path = [''$block''], attribute = None\<rparr>], disallowed = []\<rparr>,
      ''$block'' \<mapsto> \<lparr>allowed = [], disallowed = []\<rparr>,
      ''$text'' \<mapsto> \<lparr>allowed = [], disallowed = []\<rparr>]"
  by (rule ext) (simp add: newSchema_def schema_ops)

lemma newSchema_chains:
  "extensionChains newSchema =
     [''$inline'' \<mapsto> [''$inline''], ''$block'' \<mapsto> [''$block''],
      ''$text'' \<mapsto> [''$inline'', ''$text'']]"
  by (rule ext) (simp add: newSchema_def schema_ops)

lemmas store_ops =
  registerItemSt_def allowSt_def disallowSt_def getItemSt_def hasItemSt_def hasItemOptSt_def
  truthy_def addPathSt_def allocSt_def sliceSt_def newSchemaItemRef_def emptyStore_def

lemma newSchemaStore_fields:
  "itemRefs newSchemaStore =
     [''$inline'' \<mapsto> \<lparr>allowedRefs = [\<lparr>pathRef = 1, refAttribute = None\<rparr>], disallowedRefs = []\<rparr>,
      ''$block'' \<mapsto> \<lparr>allowedRefs = [], disallowedRefs = []\<rparr>,
      ''$text'' \<mapsto> \<lparr>allowedRefs = [], disallowedRefs = []\<rparr>]"
  "chainsOf newSchemaStore =
     [''$inline'' \<mapsto> [''$inline''], ''$block'' \<mapsto> [''$block''],
      ''$text'' \<mapsto> [''$inline'', ''$text'']]"
  "arrays newSchemaStore = (\<lambda>r. [])(0 := [''$block''], 1 := [''$block''])"
  "nextRef newSchemaStore = 2"
  by (rule ext, simp add: newSchemaStore_def store_ops)+
    (simp add: newSchemaStore_def store_ops)

section \<open>The registry invariant\<close>

text \<open>The constructor establishes the invariant, and every call that returns keeps it.\<close>

lemma consistent_newSchema: "consistent newSchema"
  by (auto simp: consistent_def newSchema_items newSchema_chains split: if_splits)

lemma registerItem_success:
  assumes "fst (registerItem itemName isExtending s) = Inr ()"
  shows "\<exists>base. (base = [] \<or> (\<exists>b. isExtending = Some b \<and> extensionChains s b = Some base)) \<and>
           items s itemName = None \<and>
           snd (registerItem itemName isExtending s) =
             s\<lparr>items := (items s)(itemName \<mapsto> newSchemaItem),
               extensionChains := (extensionChains s)(itemName \<mapsto> base @ [itemName])\<rparr>"
proof -
  let ?s1 = "s\<lparr>items := (items s)(itemName \<mapsto> newSchemaItem)\<rparr>"
  from assms have new: "items s itemName = None"
    by (auto simp: registerItem_def hasItem_def split: if_splits)
  show ?thesis
  proof (cases "hasItemOpt ?s1 isExtending")
    case False
    with assms new show ?thesis
      by (intro exI[of _ "[]"]) (auto simp: registerItem_def hasItem_def Let_def split: if_splits)
  next
    case True
    then obtain b where b: "isExtending = Some b"
      by (auto simp: hasItemOpt_def split: option.splits)
    with assms True obtain base where "extensionChains s b = Some base"
      by (cases "extensionChains s b") (auto simp: registerItem_def hasItem_def Let_def split: if_splits)
    with assms new True b show ?thesis
      by (intro exI[of _ base]) (auto simp: registerItem_def hasItem_def Let_def split: if_splits)
  qed
qed

lemma registerItem_consistent:
  assumes c: "consistent s" and ok: "fst (registerItem itemName isExtending s) = Inr ()"
  shows "consistent (snd (registerItem itemName isExtending s))"
proof -
  from c have d: "dom (items s) = dom (extensionChains s)"
    and ch: "\<And>n chain. extensionChains s n = Some chain \<Longrightarrow>
               set chain \<subseteq> dom (items s) \<and> chain \<noteq> [] \<and> last chain = n"
    unfolding consistent_def by blast+
  from registerItem_success[OF ok] obtain base where
    base: "base = [] \<or> (\<exists>b. isExtending = Some b \<and> extensionChains s b = Some base)"
    and res: "snd (registerItem itemName isExtending s) =
             s\<lparr>items := (items s)(itemName \<mapsto> newSchemaItem),
               extensionChains := (extensionChains s)(itemName \<mapsto> base @ [itemName])\<rparr>"
    by blast
  from base ch have sub: "set base \<subseteq> dom (items s)"
    by auto
  show ?thesis
    unfolding res consistent_def
  proof (intro conjI allI impI)
    show "dom (items (s\<lparr>items := (items s)(itemName \<mapsto> newSchemaItem),
               extensionChains := (extensionChains s)(itemName \<mapsto> base @ [itemName])\<rparr>)) =
          dom (extensionChains (s\<lparr>items := (items s)(itemName \<mapsto> newSchemaItem),
               extensionChains := (extensionChains s)(itemName \<mapsto> base @ [itemName])\<rparr>))"
      using d by simp
  next
    fix n chain
    assume a: "extensionChains (s\<lparr>items := (items s)(itemName \<mapsto> newSchemaItem),
               extensionChains := (extensionChains s)(itemName \<mapsto> base @ [itemName])\<rparr>) n = Some chain"
    show "set chain \<subseteq> dom (items (s\<lparr>items := (items s)(itemName \<mapsto> newSchemaItem),
               extensionChains := (extensionChains s)(itemName \<mapsto> base @ [itemName])\<rparr>))"
      using a sub ch[of n chain] by (cases "n = itemName") auto
    show "chain \<noteq> []" "last chain = n"
      using a ch[of n chain] by (cases "n = itemName"; auto)+
  qed
qed

lemma consistent_same_keys:
  "consistent s \<Longrightarrow> dom (items s') = dom (items s) \<Longrightarrow>
     extensionChains s' = extensionChains s \<Longrightarrow> consistent s'"
  unfolding consistent_def by metis

lemma allow_consistent:
  assumes "consistent s"
  shows "consistent (snd (allow query s))" and "consistent (snd (disallow query s))"
  by (rule consistent_same_keys[OF assms];
      auto simp: allow_def disallow_def getItem_def hasItem_def split: option.splits)+

section \<open>Matching one rule path\<close>

text \<open>A name of the path to check that has no extension chain stops the scan with a
  \<open>TypeError\<close>, whatever is left of the rule path.\<close>

lemma matchNames_unregistered:
  "\<exists>c\<in>set C. extChains c = None \<Longrightarrow> matchNames extChains C R = Inl TypeError"
  by (induction C arbitrary: R) (auto split: option.splits)

lemma greedyCursor_le: "i \<le> length R \<Longrightarrow> greedyCursor extChains R C i \<le> length R"
  by (induction C arbitrary: i) auto

lemma headInChain_drop:
  "headInChain chain (drop i R) = (i < length R \<and> R ! i \<in> set chain)"
  by (cases "i < length R") (auto simp: headInChain_def Cons_nth_drop_Suc[symmetric] split: list.splits)

text \<open>When every name of the path to check has a chain, the destructive scan of the code
  and the cursor of the specification agree: what is left of the rule path is the part
  from the cursor on.\<close>

lemma matchNames_cursor:
  "\<forall>c\<in>set C. extChains c \<noteq> None \<Longrightarrow>
   matchNames extChains C (drop i R) = Inr (drop (greedyCursor extChains R C i) R)"
proof (induction C arbitrary: i)
  case Nil
  then show ?case by simp
next
  case (Cons c cs)
  then obtain chain where c: "extChains c = Some chain" by auto
  from Cons have rest: "\<forall>c\<in>set cs. extChains c \<noteq> None" by simp
  show ?case
    using Cons.IH[OF rest, of "Suc i"] Cons.IH[OF rest, of i]
    by (simp add: c headInChain_drop isA_def drop_Suc tl_drop)
qed

text \<open>The whole of \<open>_hasMatchingPath\<close>, given the paths that \<open>_getPaths\<close> returned.\<close>

lemma matchPaths_char:
  "matchPaths extChains C ps =
     (if ps = [] then Inr False
      else if \<exists>c\<in>set C. extChains c = None then Inl TypeError
      else Inr (\<exists>p\<in>set ps. satisfiedBy extChains p C))"
proof (induction ps)
  case Nil
  then show ?case by simp
next
  case (Cons p ps)
  show ?case
  proof (cases "\<exists>c\<in>set C. extChains c = None")
    case True
    then show ?thesis by (simp add: matchNames_unregistered)
  next
    case False
    then have reg: "\<forall>c\<in>set C. extChains c \<noteq> None" by simp
    have m: "matchNames extChains C p = Inr (drop (greedyCursor extChains p C 0) p)"
      using matchNames_cursor[OF reg, of 0 p] by simp
    have le: "greedyCursor extChains p C 0 \<le> length p" by (simp add: greedyCursor_le)
    show ?thesis using Cons False le by (auto simp: m satisfiedBy_def)
  qed
qed

lemma matchPaths_set:
  "set ps = set ps' \<Longrightarrow> matchPaths extChains C ps = matchPaths extChains C ps'"
  by (auto simp: matchPaths_char)

text \<open>
  Claim C2: a stored rule path matches a candidate path by one greedy pass from left to
  right, and an empty rule path is satisfied by every candidate path. For candidate paths
  whose names all have an extension chain this is \<open>matchNames_cursor\<close> and
  \<open>matchPaths_char\<close>. It fails on the code for a candidate path with an unregistered name:
  in the schema of the constructor, the empty rule path is satisfied by \<open>[div]\<close> and the
  rule path \<open>[$block]\<close> by \<open>[$block, div]\<close> in the sense of the claim, and on both the scan
  of the code throws a \<open>TypeError\<close>.
\<close>

theorem matchPaths_TypeError:
  "satisfiedBy (extensionChains newSchema) [] [''div''] \<and>
   satisfiedBy (extensionChains newSchema) [''$block''] [''$block'', ''div''] \<and>
   matchPaths (extensionChains newSchema) [''div''] [[]] = Inl TypeError \<and>
   matchPaths (extensionChains newSchema) [''$block'', ''div''] [[''$block'']] = Inl TypeError"
  by (simp add: newSchema_chains headInChain_def satisfiedBy_def isA_def)

text \<open>
  Claim C4: the match test returns true or false and raises no error, for every candidate
  path of free-form names. The item of \<open>$inline\<close> in the schema of the constructor holds one
  allow rule; asked whether it has an allow rule matching the candidate path \<open>[div]\<close>, where
  \<open>div\<close> is not registered, \<open>_hasMatchingPath\<close> throws a \<open>TypeError\<close>.
\<close>

theorem hasMatchingPath_TypeError:
  "getItem newSchema ''$inline''
     = Inr \<lparr>allowed = [\<lparr>path = [''$block''], attribute = None\<rparr>], disallowed = []\<rparr> \<and>
   hasMatchingPath newSchema ALLOW [''div''] None
     \<lparr>allowed = [\<lparr>path = [''$block''], attribute = None\<rparr>], disallowed = []\<rparr> = Inl TypeError"
  by (simp add: hasItem_def getItem_def newSchema_items newSchema_chains
      hasMatchingPath_def getPaths_def headInChain_def)

section \<open>Query evaluation\<close>

lemma getItems_registered:
  "set chain \<subseteq> dom (items s) \<Longrightarrow> getItems s chain = Inr (map (\<lambda>n. the (items s n)) chain)"
  by (induction chain) (auto simp: getItem_def hasItem_def)

lemma hasMatchingPath_registered:
  assumes "\<forall>c\<in>set P. extensionChains s c \<noteq> None" and "items s n = Some item"
  shows "hasMatchingPath s ty P A item = Inr (hasRuleMatching s ty P A n)"
  using assms by (auto simp: hasMatchingPath_def matchPaths_char getPaths_def hasRuleMatching_def
      filter_empty_conv)

lemma anyMatchingPath_registered:
  assumes "\<forall>c\<in>set P. extensionChains s c \<noteq> None" and "set ns \<subseteq> dom (items s)"
  shows "anyMatchingPath s ty P A (map (\<lambda>n. the (items s n)) ns)
           = Inr (\<exists>n\<in>set ns. hasRuleMatching s ty P A n)"
  using assms(2)
proof (induction ns)
  case Nil
  then show ?case by simp
next
  case (Cons n ns)
  then obtain item where item: "items s n = Some item" by auto
  show ?case using Cons hasMatchingPath_registered[OF assms(1) item, of ty A]
    by (auto simp: item)
qed

text \<open>In a consistent schema, on a candidate path of registered names, a query is allowed
  exactly when no entity of the extension chain holds a matching disallow rule and one of
  them holds a matching allow rule.\<close>

lemma checkQuery_registered:
  assumes "consistent s" and "extensionChains s (name query) = Some chain"
    and "\<forall>c\<in>set (pathNames (inside query)). extensionChains s c \<noteq> None"
  shows "checkQuery query s =
           Inr ((\<forall>n\<in>set chain. \<not> hasRuleMatching s DISALLOW (pathNames (inside query)) (queryAttribute query) n) \<and>
                (\<exists>n\<in>set chain. hasRuleMatching s ALLOW (pathNames (inside query)) (queryAttribute query) n))"
proof -
  from assms(1,2) have sub: "set chain \<subseteq> dom (items s)"
    unfolding consistent_def by blast
  from assms(1,2) have "name query \<in> dom (items s)"
    unfolding consistent_def by blast
  then have reg: "hasItem s (name query)"
    by (auto simp: hasItem_def)
  have pn: "(case inside query of Str str \<Rightarrow> splitSpace str | Arr a \<Rightarrow> a) = pathNames (inside query)"
    by (simp add: pathNames_def)
  show ?thesis
    unfolding checkQuery_def pn
    using reg assms(2) getItems_registered[OF sub]
      anyMatchingPath_registered[OF assms(3) sub, of DISALLOW "queryAttribute query"]
      anyMatchingPath_registered[OF assms(3) sub, of ALLOW "queryAttribute query"]
    by (auto simp: Let_def)
qed

text \<open>
  Claim C1: for every registered entity, candidate path and attribute, \<open>checkQuery\<close> returns
  true exactly when no item of the extension chain has a matching disallow rule and one has
  a matching allow rule. For candidate paths of registered names this is
  \<open>checkQuery_registered\<close>. It fails on the code for a candidate path with an unregistered
  name: in the schema of the constructor, for \<open>$text\<close> inside \<open>[$block, div]\<close> the allow rule
  of \<open>$inline\<close> matches and no disallow rule does, so the claim gives true; \<open>checkQuery\<close>
  throws a \<open>TypeError\<close>.
\<close>

theorem checkQuery_TypeError:
  "hasItem newSchema ''$text'' \<and>
   extensionChains newSchema ''$text'' = Some [''$inline'', ''$text''] \<and>
   hasRuleMatching newSchema ALLOW [''$block'', ''div''] None ''$inline'' \<and>
   \<not> hasRuleMatching newSchema DISALLOW [''$block'', ''div''] None ''$inline'' \<and>
   \<not> hasRuleMatching newSchema DISALLOW [''$block'', ''div''] None ''$text'' \<and>
   checkQuery \<lparr>name = ''$text'', inside = Arr [''$block'', ''div''], queryAttribute = None\<rparr> newSchema
     = Inl TypeError"
  by (simp add: checkQuery_def hasItem_def getItem_def newSchema_items newSchema_chains
      hasMatchingPath_def getPaths_def headInChain_def hasRuleMatching_def satisfiedBy_def isA_def)

text \<open>
  Claim C6: for every path, position and attribute, \<open>checkQuery\<close> and \<open>checkAtPosition\<close>
  called with a name that is not registered return false and raise no error.
\<close>

theorem checkQuery_unregistered:
  "\<not> hasItem s n \<Longrightarrow>
     checkQuery \<lparr>name = n, inside = p, queryAttribute = A\<rparr> s = Inr False \<and>
     checkAtPosition pos n A s = Inr False"
  by (simp add: checkQuery_def checkAtPosition_def)

theorem checkQuery_unregistered_witness:
  "\<not> hasItem newSchema ''unregistered'' \<and>
   checkQuery \<lparr>name = ''unregistered'', inside = Arr [], queryAttribute = None\<rparr> newSchema = Inr False \<and>
   checkAtPosition (Position None) ''unregistered'' None newSchema = Inr False"
proof -
  have h: "\<not> hasItem newSchema ''unregistered''"
    by (simp add: hasItem_def newSchema_items)
  show ?thesis
    using h checkQuery_unregistered[OF h, of "Arr []" None "Position None"] by simp
qed

text \<open>The loop of \<open>_makeItemsPathFromPosition\<close> collects the names from the immediate parent
  outwards; reversed, they are the ancestor names from the root to the immediate parent.\<close>

lemma rev_pushParentNames:
  "rev (pushParentNames p names) = ancestorNames p @ rev names"
  by (induction p names rule: pushParentNames.induct) simp_all

lemma makeItemsPathFromPosition_ancestors:
  "makeItemsPathFromPosition pos = ancestorNames (positionParent pos)"
  by (simp add: makeItemsPathFromPosition_def rev_pushParentNames)

text \<open>
  Claim C8: for every entity name, attribute and position, \<open>checkAtPosition\<close> returns what
  \<open>checkQuery\<close> returns for the same name and attribute inside the ancestor names of the
  position, read from the root to the immediate parent (an error included).
\<close>

theorem checkAtPosition_checkQuery:
  "checkAtPosition pos n A s =
     checkQuery \<lparr>name = n, inside = Arr (ancestorNames (positionParent pos)), queryAttribute = A\<rparr> s"
  by (simp add: checkAtPosition_def makeItemsPathFromPosition_ancestors checkQuery_def)

theorem checkAtPosition_checkQuery_witness:
  "ancestorNames (positionParent (Position (Some (Element ''$inline'' (Some (Element ''$block'' None))))))
     = [''$block'', ''$inline''] \<and>
   checkAtPosition (Position (Some (Element ''$inline'' (Some (Element ''$block'' None))))) ''$text'' None newSchema
     = checkQuery \<lparr>name = ''$text'', inside = Arr [''$block'', ''$inline''], queryAttribute = None\<rparr> newSchema \<and>
   checkQuery \<lparr>name = ''$text'', inside = Arr [''$block'', ''$inline''], queryAttribute = None\<rparr> newSchema = Inr True"
  using checkAtPosition_checkQuery[of "Position (Some (Element ''$inline'' (Some (Element ''$block'' None))))"
      "''$text''" None newSchema]
  by (simp add: checkQuery_def hasItem_def getItem_def newSchema_items newSchema_chains
      hasMatchingPath_def getPaths_def headInChain_def)

section \<open>Registration\<close>

text \<open>
  Claim C5 as stated fails on the code: the empty string is given as the base name and is
  not registered in the schema of the constructor, yet \<open>registerItem\<close> raises nothing and
  registers \<open>x\<close> with the chain \<open>[x]\<close>; the test \<open>!!isExtending\<close> takes the empty string for
  no base.
\<close>

theorem registerItem_empty_base_counterexample:
  "\<not> hasItem newSchema ''x'' \<and> \<not> hasItem newSchema '''' \<and>
   fst (registerItem ''x'' (Some '''') newSchema) = Inr () \<and>
   extensionChains (snd (registerItem ''x'' (Some '''') newSchema)) ''x'' = Some [''x'']"
  by (simp add: schema_ops newSchema_items)

text \<open>
  Claim C5, amended: \<open>registerItem\<close> raises \<open>schema-item-exists\<close> exactly when the name is
  already registered, and \<open>schema-no-item\<close> exactly when the name is new and the base given
  is a non-empty name that is not registered; whenever it raises one of the two, the schema
  is left as it was.
\<close>

theorem registerItem_failures:
  "(fst (registerItem itemName isExtending s) = Inl SchemaItemExists \<longleftrightarrow> hasItem s itemName) \<and>
   (fst (registerItem itemName isExtending s) = Inl SchemaNoItem \<longleftrightarrow>
      \<not> hasItem s itemName \<and> (\<exists>b. isExtending = Some b \<and> b \<noteq> [] \<and> \<not> hasItem s b)) \<and>
   (fst (registerItem itemName isExtending s) = Inl SchemaItemExists \<or>
    fst (registerItem itemName isExtending s) = Inl SchemaNoItem
      \<longrightarrow> snd (registerItem itemName isExtending s) = s)"
  by (auto simp: registerItem_def hasItemOpt_def truthy_def Let_def split: option.splits)

theorem registerItem_failures_witness:
  "hasItem newSchema ''$text'' \<and>
   registerItem ''$text'' None newSchema = (Inl SchemaItemExists, newSchema) \<and>
   \<not> hasItem newSchema ''y'' \<and> \<not> hasItem newSchema ''nonexistent'' \<and>
   registerItem ''y'' (Some ''nonexistent'') newSchema = (Inl SchemaNoItem, newSchema)"
proof -
  have a: "hasItem newSchema ''$text''" and b: "\<not> hasItem newSchema ''y''"
    and c: "\<not> hasItem newSchema ''nonexistent''"
    by (simp_all add: hasItem_def newSchema_items)
  show ?thesis
    using a b c registerItem_failures[of "''$text''" None newSchema]
      registerItem_failures[of "''y''" "Some ''nonexistent''" newSchema]
    by (simp add: prod_eq_iff)
qed

text \<open>One more way to fail, outside the two above: the empty string registered as its own
  base. The \<open>TypeError\<close> comes after \<open>_items.set\<close>, so the name stays registered, with no
  chain.\<close>

lemma registerItem_empty_name_TypeError:
  "\<not> hasItem s [] \<Longrightarrow> extensionChains s [] = None \<Longrightarrow>
     fst (registerItem [] (Some []) s) = Inl TypeError \<and>
     hasItem (snd (registerItem [] (Some []) s)) []"
  by (simp add: registerItem_def hasItemOpt_def truthy_def hasItem_def Let_def)

lemma exec_keeps_chain:
  "hasItem s n \<Longrightarrow> hasItem (exec opn s) n \<and> extensionChains (exec opn s) n = extensionChains s n"
  by (cases opn)
    (auto simp: registerItem_def allow_def disallow_def getItem_def hasItem_def hasItemOpt_def
      Let_def split: option.splits)

lemma execAll_keeps_chain:
  "hasItem s n \<Longrightarrow>
     hasItem (execAll opns s) n \<and> extensionChains (execAll opns s) n = extensionChains s n"
  by (induction opns arbitrary: s) (simp_all add: exec_keeps_chain)

text \<open>Where the base has a chain, a new name gets that chain with itself appended, or
  the chain of itself alone with no base; and the chain of a registered entity is the same
  after any sequence of later operations, whether they return or throw.\<close>

lemma registerItem_chain:
  "(\<not> hasItem s E \<and> hasItem s B \<and> extensionChains s B = Some chainB \<longrightarrow>
      fst (registerItem E (Some B) s) = Inr () \<and>
      hasItem (snd (registerItem E (Some B) s)) E \<and>
      extensionChains (snd (registerItem E (Some B) s)) E = Some (chainB @ [E])) \<and>
   (\<not> hasItem s E \<longrightarrow>
      fst (registerItem E None s) = Inr () \<and>
      hasItem (snd (registerItem E None s)) E \<and>
      extensionChains (snd (registerItem E None s)) E = Some [E]) \<and>
   (hasItem s n \<longrightarrow>
      hasItem (execAll opns s) n \<and> extensionChains (execAll opns s) n = extensionChains s n)"
proof (intro conjI impI)
  assume "hasItem s n"
  then show "hasItem (execAll opns s) n" "extensionChains (execAll opns s) n = extensionChains s n"
    by (simp_all add: execAll_keeps_chain)
qed (auto simp: registerItem_def hasItemOpt_def truthy_def hasItem_def Let_def)

text \<open>
  Claim C3: \<open>registerItem\<close> of a new name \<open>E\<close> with a registered base \<open>B\<close> stores for \<open>E\<close> the
  chain of \<open>B\<close> with \<open>E\<close> appended, so that \<open>E\<close> is the last element of its own chain; with no
  base it stores \<open>[E]\<close>; and no later operation modifies a stored chain. The last two parts,
  and the first where \<open>B\<close> has a chain, are \<open>registerItem_chain\<close>. The first fails on the
  code after a call that threw. On the schema of the constructor, \<open>registerItem( '', '' )\<close> throws a \<open>TypeError\<close> after
  \<open>_items.set\<close> and leaves the empty name registered with no chain. Then
  \<open>registerItem( 'x', '' )\<close> names a registered base: it throws a \<open>TypeError\<close>, stores no chain
  for \<open>x\<close> and leaves \<open>x\<close> registered; and so does \<open>registerItem( 'y', 'x' )\<close> after it.
\<close>

theorem registerItem_chain_TypeError:
  "fst (registerItem '''' (Some '''') newSchema) = Inl TypeError \<and>
   hasItem (snd (registerItem '''' (Some '''') newSchema)) '''' \<and>
   extensionChains (snd (registerItem '''' (Some '''') newSchema)) '''' = None \<and>
   \<not> hasItem (snd (registerItem '''' (Some '''') newSchema)) ''x'' \<and>
   fst (registerItem ''x'' (Some '''') (snd (registerItem '''' (Some '''') newSchema))) = Inl TypeError \<and>
   hasItem (snd (registerItem ''x'' (Some '''') (snd (registerItem '''' (Some '''') newSchema)))) ''x'' \<and>
   extensionChains
     (snd (registerItem ''x'' (Some '''') (snd (registerItem '''' (Some '''') newSchema)))) ''x'' = None \<and>
   \<not> hasItem (snd (registerItem ''x'' (Some '''') (snd (registerItem '''' (Some '''') newSchema)))) ''y'' \<and>
   fst (registerItem ''y'' (Some ''x'')
          (snd (registerItem ''x'' (Some '''') (snd (registerItem '''' (Some '''') newSchema)))))
     = Inl TypeError \<and>
   extensionChains
     (snd (registerItem ''y'' (Some ''x'')
        (snd (registerItem ''x'' (Some '''') (snd (registerItem '''' (Some '''') newSchema)))))) ''y''
     = None"
  by (simp add: registerItem_def hasItemOpt_def truthy_def hasItem_def Let_def
      newSchema_items newSchema_chains)

section \<open>Independence of the order of the rules\<close>

text \<open>\<open>allow\<close> and \<open>disallow\<close> in the model where paths are values.\<close>

lemma allow_disallow_value:
  "(\<not> hasItem s (name query) \<longrightarrow>
      allow query s = (Inl SchemaNoItem, s) \<and> disallow query s = (Inl SchemaNoItem, s)) \<and>
   (\<forall>item. items s (name query) = Some item \<longrightarrow>
      allow query s =
        (Inr (), s\<lparr>items := (items s)(name query \<mapsto>
           item\<lparr>allowed := allowed item @
             [\<lparr>path = pathNames (inside query), attribute = queryAttribute query\<rparr>]\<rparr>)\<rparr>) \<and>
      disallow query s =
        (Inr (), s\<lparr>items := (items s)(name query \<mapsto>
           item\<lparr>disallowed := disallowed item @
             [\<lparr>path = pathNames (inside query), attribute = queryAttribute query\<rparr>]\<rparr>)\<rparr>))"
  by (simp add: allow_def disallow_def getItem_def hasItem_def addAllowed_def addDisallowed_def
      addPath_def pathNames_def)

text \<open>The match test of an item reads the set of its paths for the attribute, and the
  chains; so does \<open>checkQuery\<close>, for the items of one extension chain.\<close>

lemma set_getPaths:
  "sameRules item item' \<Longrightarrow> set (getPaths ty A item) = set (getPaths ty A item')"
  by (auto simp: sameRules_def getPaths_def dest: mset_eq_setD)

lemma hasMatchingPath_sameRules:
  "sameRules item item' \<Longrightarrow> extensionChains s' = extensionChains s \<Longrightarrow>
     hasMatchingPath s' ty P A item' = hasMatchingPath s ty P A item"
  unfolding hasMatchingPath_def
  using matchPaths_set[OF set_getPaths[of item item' ty A]] by simp

lemma anyMatchingPath_sameRules:
  "list_all2 sameRules is is' \<Longrightarrow> extensionChains s' = extensionChains s \<Longrightarrow>
     anyMatchingPath s' ty P A is' = anyMatchingPath s ty P A is"
  by (induction "is" is' rule: list_all2_induct)
    (auto simp: hasMatchingPath_sameRules split: sum.splits)

lemma getItems_sameRules:
  "\<forall>n\<in>set ns. rel_option sameRules (items s n) (items s' n) \<Longrightarrow>
     rel_sum (=) (list_all2 sameRules) (getItems s ns) (getItems s' ns)"
proof (induction ns)
  case Nil
  then show ?case by simp
next
  case (Cons n ns)
  then have n: "rel_option sameRules (items s n) (items s' n)"
    and rest: "rel_sum (=) (list_all2 sameRules) (getItems s ns) (getItems s' ns)"
    by simp_all
  from n rest show ?case
    by (cases "items s n"; cases "items s' n"; cases "getItems s ns"; cases "getItems s' ns")
      (simp_all add: getItem_def hasItem_def)
qed

lemma checkQuery_sameRules:
  assumes chains: "extensionChains s' = extensionChains s"
    and self: "rel_option sameRules (items s (name query)) (items s' (name query))"
    and chain: "\<And>chain n. extensionChains s (name query) = Some chain \<Longrightarrow> n \<in> set chain \<Longrightarrow>
                  rel_option sameRules (items s n) (items s' n)"
  shows "checkQuery query s' = checkQuery query s"
proof -
  have has: "hasItem s' (name query) = hasItem s (name query)"
    using self by (cases "items s (name query)"; cases "items s' (name query)")
      (simp_all add: hasItem_def)
  show ?thesis
  proof (cases "extensionChains s (name query)")
  case None
  with chains has show ?thesis
    by (simp add: checkQuery_def)
next
  case (Some ch)
  from chain[OF Some]
  have rel: "rel_sum (=) (list_all2 sameRules) (getItems s ch) (getItems s' ch)"
    by (intro getItems_sameRules) simp
  show ?thesis
  proof (cases "getItems s ch")
    case (Inl e)
    with rel have "getItems s' ch = Inl e"
      by (cases "getItems s' ch") simp_all
    with Inl Some chains has show ?thesis
      by (simp add: checkQuery_def)
  next
    case (Inr schemaItems)
    with rel obtain schemaItems' where r': "getItems s' ch = Inr schemaItems'"
      and all2: "list_all2 sameRules schemaItems schemaItems'"
      by (cases "getItems s' ch") simp_all
    show ?thesis
      using Some chains has Inr r' anyMatchingPath_sameRules[OF all2 chains]
      by (simp add: checkQuery_def Let_def split: sum.splits)
  qed
  qed
qed

lemma sameRules_refl: "sameRules item item"
  by (simp add: sameRules_def)

text \<open>What a sequence of \<open>allow\<close> and \<open>disallow\<close> calls does to an item.\<close>

lemma mset_addedRules:
  "mset (addedRules m n opns) = (\<Sum>opn\<in>#mset opns. mset (addedBy m n opn))"
  by (induction opns) (simp_all add: addedRules_def)

lemma exec_rule_items:
  "isRuleOp opn \<Longrightarrow>
     items (exec opn s) n =
       map_option (\<lambda>item. item\<lparr>allowed := allowed item @ addedBy Allowed n opn,
                                disallowed := disallowed item @ addedBy Disallowed n opn\<rparr>) (items s n) \<and>
     extensionChains (exec opn s) = extensionChains s"
  by (cases opn)
    (auto simp: allow_def disallow_def getItem_def hasItem_def addAllowed_def addDisallowed_def
      addPath_def pathNames_def option.map_ident)

lemma execAll_rule_items:
  "\<forall>opn\<in>set opns. isRuleOp opn \<Longrightarrow>
     items (execAll opns s) n =
       map_option (\<lambda>item. item\<lparr>allowed := allowed item @ addedRules Allowed n opns,
                                disallowed := disallowed item @ addedRules Disallowed n opns\<rparr>) (items s n) \<and>
     extensionChains (execAll opns s) = extensionChains s"
proof (induction opns arbitrary: s)
  case Nil
  then show ?case by (simp add: addedRules_def option.map_ident)
next
  case (Cons opn opns)
  then have r: "isRuleOp opn" and rs: "\<forall>opn\<in>set opns. isRuleOp opn" by simp_all
  show ?case
    using Cons.IH[OF rs, of "exec opn s"] exec_rule_items[OF r, of s n]
    by (cases "items s n") (simp_all add: addedRules_def)
qed

lemma execAll_permuted:
  assumes "\<forall>opn\<in>set opns. isRuleOp opn" and "mset opns = mset opns'"
  shows "rel_option sameRules (items (execAll opns s) n) (items (execAll opns' s) n)"
    and "extensionChains (execAll opns' s) = extensionChains (execAll opns s)"
proof -
  from assms have r': "\<forall>opn\<in>set opns'. isRuleOp opn"
    by (metis mset_eq_setD)
  have m: "mset (addedRules m n opns) = mset (addedRules m n opns')" for m
    by (simp add: mset_addedRules assms(2))
  show "rel_option sameRules (items (execAll opns s) n) (items (execAll opns' s) n)"
    using execAll_rule_items[OF assms(1), of s n] execAll_rule_items[OF r', of s n] m
    by (cases "items s n") (simp_all add: sameRules_def)
  show "extensionChains (execAll opns' s) = extensionChains (execAll opns s)"
    using execAll_rule_items[OF assms(1), of s n] execAll_rule_items[OF r', of s n] by simp
qed

text \<open>
  Claim C9: the result of every query is the same after two sequences of \<open>allow\<close> and
  \<open>disallow\<close> calls that are permutations of one another (also when the query throws); and
  two schemas with the same chains that hold the same item for the queried entity and for
  every name of its extension chain give the same result, whatever rules the other
  entities hold.
\<close>

theorem checkQuery_rule_order:
  "((\<forall>opn\<in>set opns. isRuleOp opn) \<and> mset opns = mset opns' \<longrightarrow>
      checkQuery query (execAll opns' s) = checkQuery query (execAll opns s)) \<and>
   (extensionChains s' = extensionChains s \<and> items s' (name query) = items s (name query) \<and>
    (\<forall>chain. extensionChains s (name query) = Some chain \<longrightarrow>
       (\<forall>n\<in>set chain. items s' n = items s n)) \<longrightarrow>
      checkQuery query s' = checkQuery query s)"
proof (intro conjI impI)
  assume a: "(\<forall>opn\<in>set opns. isRuleOp opn) \<and> mset opns = mset opns'"
  then show "checkQuery query (execAll opns' s) = checkQuery query (execAll opns s)"
    by (intro checkQuery_sameRules execAll_permuted) simp_all
next
  assume b: "extensionChains s' = extensionChains s \<and> items s' (name query) = items s (name query) \<and>
    (\<forall>chain. extensionChains s (name query) = Some chain \<longrightarrow>
       (\<forall>n\<in>set chain. items s' n = items s n))"
  have refl: "rel_option sameRules x x" for x
    by (cases x) (simp_all add: sameRules_refl)
  from b show "checkQuery query s' = checkQuery query s"
    by (intro checkQuery_sameRules) (auto simp: refl)
qed

theorem checkQuery_rule_order_witness:
  "mset [Allow \<lparr>name = ''$text'', inside = Str ''$block'', queryAttribute = Some ''bold''\<rparr>,
         Disallow \<lparr>name = ''$inline'', inside = Arr [''$block''], queryAttribute = Some ''bold''\<rparr>]
     = mset [Disallow \<lparr>name = ''$inline'', inside = Arr [''$block''], queryAttribute = Some ''bold''\<rparr>,
             Allow \<lparr>name = ''$text'', inside = Str ''$block'', queryAttribute = Some ''bold''\<rparr>] \<and>
   checkQuery \<lparr>name = ''$text'', inside = Arr [''$block''], queryAttribute = Some ''bold''\<rparr>
     (execAll [Disallow \<lparr>name = ''$inline'', inside = Arr [''$block''], queryAttribute = Some ''bold''\<rparr>,
               Allow \<lparr>name = ''$text'', inside = Str ''$block'', queryAttribute = Some ''bold''\<rparr>] newSchema)
     = checkQuery \<lparr>name = ''$text'', inside = Arr [''$block''], queryAttribute = Some ''bold''\<rparr>
         (execAll [Allow \<lparr>name = ''$text'', inside = Str ''$block'', queryAttribute = Some ''bold''\<rparr>,
                   Disallow \<lparr>name = ''$inline'', inside = Arr [''$block''], queryAttribute = Some ''bold''\<rparr>]
            newSchema) \<and>
   checkQuery \<lparr>name = ''$text'', inside = Arr [''$block''], queryAttribute = None\<rparr>
     (snd (disallow \<lparr>name = ''$block'', inside = Arr [''$block''], queryAttribute = None\<rparr> newSchema))
     = checkQuery \<lparr>name = ''$text'', inside = Arr [''$block''], queryAttribute = None\<rparr> newSchema \<and>
   checkQuery \<lparr>name = ''$text'', inside = Arr [''$block''], queryAttribute = None\<rparr> newSchema = Inr True"
proof -
  let ?a = "Allow \<lparr>name = ''$text'', inside = Str ''$block'', queryAttribute = Some ''bold''\<rparr>"
  let ?d = "Disallow \<lparr>name = ''$inline'', inside = Arr [''$block''], queryAttribute = Some ''bold''\<rparr>"
  let ?q = "\<lparr>name = ''$text'', inside = Arr [''$block''], queryAttribute = None\<rparr>"
  let ?s' = "snd (disallow \<lparr>name = ''$block'', inside = Arr [''$block''], queryAttribute = None\<rparr> newSchema)"
  have m: "mset [?a, ?d] = mset [?d, ?a]"
    by (simp add: add_mset_commute)
  have r: "\<forall>opn\<in>set [?a, ?d]. isRuleOp opn"
    by simp
  have c: "extensionChains ?s' = extensionChains newSchema"
    by (simp add: disallow_def getItem_def hasItem_def newSchema_items)
  have i: "items ?s' ''$text'' = items newSchema ''$text''"
    "items ?s' ''$inline'' = items newSchema ''$inline''"
    by (simp_all add: disallow_def getItem_def hasItem_def newSchema_items)
  have v: "checkQuery ?q newSchema = Inr True"
    by (simp add: checkQuery_def hasItem_def getItem_def newSchema_items newSchema_chains
        hasMatchingPath_def getPaths_def headInChain_def)
  show ?thesis
    using m r c i v
      checkQuery_rule_order[of "[?a, ?d]" "[?d, ?a]"
        "\<lparr>name = ''$text'', inside = Arr [''$block''], queryAttribute = Some ''bold''\<rparr>" newSchema
        newSchema]
      checkQuery_rule_order[of "[]" "[]" ?q newSchema ?s']
    by (simp add: newSchema_chains)
qed

section \<open>The store: what a query leaves unchanged\<close>

lemma unchangedBelow_refl: "unchangedBelow k st st"
  by (simp add: unchangedBelow_def)

lemma unchangedBelow_trans:
  "unchangedBelow k st st1 \<Longrightarrow> unchangedBelow k st1 st2 \<Longrightarrow> unchangedBelow k st st2"
  by (auto simp: unchangedBelow_def)

lemma sliceSt_unchanged:
  "k \<le> nextRef st \<Longrightarrow> unchangedBelow k st (snd (sliceSt r st))"
  by (simp add: sliceSt_def unchangedBelow_def)

lemma shiftSt_unchanged:
  "k \<le> r \<Longrightarrow> unchangedBelow k st (shiftSt r st)"
  by (simp add: shiftSt_def unchangedBelow_def)

text \<open>\<open>_getPaths\<close> returns addresses of new arrays only.\<close>

lemma copyPathsSt_unchanged:
  "k \<le> nextRef st \<Longrightarrow>
     unchangedBelow k st (snd (copyPathsSt attr source st)) \<and>
     (\<forall>r\<in>set (fst (copyPathsSt attr source st)). k \<le> r)"
proof (induction source arbitrary: st)
  case Nil
  then show ?case by (simp add: unchangedBelow_refl)
next
  case (Cons item source)
  show ?case
  proof (cases "refAttribute item = attr")
    case False
    with Cons show ?thesis by simp
  next
    case True
    obtain r st1 where sl: "sliceSt (pathRef item) st = (r, st1)"
      by (cases "sliceSt (pathRef item) st")
    then have r: "r = nextRef st" and n1: "nextRef st1 = Suc (nextRef st)"
      by (auto simp: sliceSt_def)
    from sl sliceSt_unchanged[OF Cons.prems, of "pathRef item"]
    have u1: "unchangedBelow k st st1" by simp
    from Cons.prems n1 have k1: "k \<le> nextRef st1" by simp
    from Cons.IH[OF k1] u1 True sl r Cons.prems show ?thesis
      by (auto simp: split_beta intro: unchangedBelow_trans)
  qed
qed

text \<open>The scan shifts the array it was given and no other.\<close>

lemma matchNamesSt_unchanged:
  "k \<le> r \<Longrightarrow> unchangedBelow k st (snd (matchNamesSt checkPath r st))"
proof (induction checkPath arbitrary: st)
  case Nil
  then show ?case by (simp add: unchangedBelow_refl)
next
  case (Cons c cs)
  show ?case
  proof (cases "chainsOf st c")
    case None
    then show ?thesis by (simp add: unchangedBelow_refl)
  next
    case (Some chain)
    then show ?thesis
      using Cons.IH[OF Cons.prems, of "shiftSt r st"] Cons.IH[OF Cons.prems, of st]
        shiftSt_unchanged[OF Cons.prems, of st]
      by (auto intro: unchangedBelow_trans)
  qed
qed

lemma matchPathsSt_unchanged:
  "\<forall>r\<in>set rs. k \<le> r \<Longrightarrow> unchangedBelow k st (snd (matchPathsSt checkPath rs st))"
proof (induction rs arbitrary: st)
  case Nil
  then show ?case by (simp add: unchangedBelow_refl)
next
  case (Cons r rs)
  then have r: "k \<le> r" and rs: "\<forall>r\<in>set rs. k \<le> r" by simp_all
  obtain res st1 where m: "matchNamesSt checkPath r st = (res, st1)"
    by (cases "matchNamesSt checkPath r st")
  with matchNamesSt_unchanged[OF r, of st checkPath] have u1: "unchangedBelow k st st1"
    by simp
  show ?case
    using m u1 Cons.IH[OF rs, of st1]
    by (cases res) (auto intro: unchangedBelow_trans)
qed

lemma hasMatchingPathSt_unchanged:
  "k \<le> nextRef st \<Longrightarrow> unchangedBelow k st (snd (hasMatchingPathSt ty checkPath attr item st))"
proof -
  assume k: "k \<le> nextRef st"
  obtain rs st1 where g: "getPathsSt ty attr item st = (rs, st1)"
    by (cases "getPathsSt ty attr item st")
  with copyPathsSt_unchanged[OF k, of attr "if ty = ALLOW then allowedRefs item else disallowedRefs item"]
  have u1: "unchangedBelow k st st1" and rs: "\<forall>r\<in>set rs. k \<le> r"
    by (simp_all add: getPathsSt_def)
  show ?thesis
    using g u1 matchPathsSt_unchanged[OF rs, of st1 checkPath]
    by (auto simp: hasMatchingPathSt_def intro: unchangedBelow_trans)
qed

lemma anyMatchingPathSt_unchanged:
  "k \<le> nextRef st \<Longrightarrow>
     unchangedBelow k st (snd (anyMatchingPathSt ty checkPath attr schemaItems st))"
proof (induction schemaItems arbitrary: st)
  case Nil
  then show ?case by (simp add: unchangedBelow_refl)
next
  case (Cons item rest)
  obtain res st1 where h: "hasMatchingPathSt ty checkPath attr item st = (res, st1)"
    by (cases "hasMatchingPathSt ty checkPath attr item st")
  with hasMatchingPathSt_unchanged[OF Cons.prems, of ty checkPath attr item]
  have u1: "unchangedBelow k st st1" by simp
  then have k1: "k \<le> nextRef st1"
    using Cons.prems by (simp add: unchangedBelow_def)
  show ?case
    using h u1 Cons.IH[OF k1]
    by (cases res) (auto intro: unchangedBelow_trans)
qed

lemma checkQuerySt_unchanged:
  "unchangedBelow (nextRef st) st (snd (checkQuerySt query st))"
proof (cases "hasItemSt st (name query)")
  case False
  then show ?thesis by (simp add: checkQuerySt_def unchangedBelow_refl)
next
  case reg: True
  let ?cp = "case inside query of Str str \<Rightarrow> splitSpace str | Arr a \<Rightarrow> a"
  show ?thesis
  proof (cases "chainsOf st (name query)")
    case None
    with reg show ?thesis by (simp add: checkQuerySt_def unchangedBelow_refl)
  next
    case (Some chain)
    show ?thesis
    proof (cases "getItemsSt st chain")
      case (Inl e)
      with reg Some show ?thesis by (simp add: checkQuerySt_def unchangedBelow_refl)
    next
      case (Inr schemaItems)
      obtain res st1 where
        d: "anyMatchingPathSt DISALLOW ?cp (queryAttribute query) schemaItems st = (res, st1)"
        by (cases "anyMatchingPathSt DISALLOW ?cp (queryAttribute query) schemaItems st")
      with anyMatchingPathSt_unchanged[of "nextRef st" st DISALLOW ?cp "queryAttribute query" schemaItems]
      have u1: "unchangedBelow (nextRef st) st st1" by simp
      then have k1: "nextRef st \<le> nextRef st1" by (simp add: unchangedBelow_def)
      have u2: "unchangedBelow (nextRef st) st
                  (snd (anyMatchingPathSt ALLOW ?cp (queryAttribute query) schemaItems st1))"
        using u1 anyMatchingPathSt_unchanged[OF k1] by (rule unchangedBelow_trans)
      show ?thesis
        using reg Some Inr d u1 u2
        by (cases res) (simp_all add: checkQuerySt_def)
    qed
  qed
qed

lemma checkAtPositionSt_unchanged:
  "unchangedBelow (nextRef st) st (snd (checkAtPositionSt pos n attr st))"
  by (simp add: checkAtPositionSt_def unchangedBelow_refl checkQuerySt_unchanged)

section \<open>The store: the scan over addresses computes the scan over values\<close>

lemma copyPathsSt_contents:
  assumes "\<forall>i\<in>set source. pathRef i < nextRef st"
  shows "map (arrays (snd (copyPathsSt attr source st))) (fst (copyPathsSt attr source st))
           = map (\<lambda>i. arrays st (pathRef i)) (filter (\<lambda>i. refAttribute i = attr) source) \<and>
         distinct (fst (copyPathsSt attr source st))"
  using assms
proof (induction source arbitrary: st)
  case Nil
  then show ?case by simp
next
  case (Cons item source)
  show ?case
  proof (cases "refAttribute item = attr")
    case False
    with Cons show ?thesis by simp
  next
    case True
    let ?r = "nextRef st"
    let ?st1 = "snd (sliceSt (pathRef item) st)"
    have f1: "fst (sliceSt (pathRef item) st) = ?r"
      by (simp add: sliceSt_def)
    have n1: "nextRef ?st1 = Suc ?r" and a1: "arrays ?st1 = (arrays st)(?r := arrays st (pathRef item))"
      by (simp_all add: sliceSt_def)
    from Cons.prems n1 have v1: "\<forall>i\<in>set source. pathRef i < nextRef ?st1"
      by auto
    have same: "arrays ?st1 (pathRef i) = arrays st (pathRef i)" if "i \<in> set source" for i
      using that Cons.prems a1 by auto
    from copyPathsSt_unchanged[of "Suc ?r" ?st1 attr source] n1
    have u: "unchangedBelow (Suc ?r) ?st1 (snd (copyPathsSt attr source ?st1))"
      and ge: "\<forall>r\<in>set (fst (copyPathsSt attr source ?st1)). Suc ?r \<le> r"
      by simp_all
    from u a1 have head: "arrays (snd (copyPathsSt attr source ?st1)) ?r = arrays st (pathRef item)"
      by (simp add: unchangedBelow_def)
    from ge have fresh: "?r \<notin> set (fst (copyPathsSt attr source ?st1))"
      by auto
    have m: "map (\<lambda>i. arrays ?st1 (pathRef i)) (filter (\<lambda>i. refAttribute i = attr) source)
               = map (\<lambda>i. arrays st (pathRef i)) (filter (\<lambda>i. refAttribute i = attr) source)"
      by (rule map_cong) (simp_all add: same)
    show ?thesis
      using True Cons.IH[OF v1] head fresh m
      by (simp add: f1 split_beta)
  qed
qed

lemma matchNamesSt_sim:
  "(case matchNames (chainsOf st) checkPath (arrays st r) of
      Inl e \<Rightarrow> fst (matchNamesSt checkPath r st) = Inl e
    | Inr left \<Rightarrow> fst (matchNamesSt checkPath r st) = Inr () \<and>
                  arrays (snd (matchNamesSt checkPath r st)) r = left) \<and>
   chainsOf (snd (matchNamesSt checkPath r st)) = chainsOf st \<and>
   (\<forall>r'. r' \<noteq> r \<longrightarrow> arrays (snd (matchNamesSt checkPath r st)) r' = arrays st r')"
proof (induction checkPath arbitrary: st)
  case Nil
  then show ?case by simp
next
  case (Cons c cs)
  show ?case
  proof (cases "chainsOf st c")
    case None
    then show ?thesis by simp
  next
    case (Some chain)
    show ?thesis
    proof (cases "headInChain chain (arrays st r)")
      case True
      with Some Cons.IH[of "shiftSt r st"] show ?thesis
        by (simp add: shiftSt_def split: sum.splits)
    next
      case False
      with Some Cons.IH[of st] show ?thesis
        by (simp split: sum.splits)
    qed
  qed
qed

lemma matchPathsSt_sim:
  "distinct rs \<Longrightarrow>
     fst (matchPathsSt checkPath rs st) = matchPaths (chainsOf st) checkPath (map (arrays st) rs)"
proof (induction rs arbitrary: st)
  case Nil
  then show ?case by simp
next
  case (Cons r rs)
  then have d: "distinct rs" and nr: "r \<notin> set rs" by simp_all
  let ?st1 = "snd (matchNamesSt checkPath r st)"
  note sim = matchNamesSt_sim[where st = st and checkPath = checkPath and r = r]
  have rest: "map (arrays ?st1) rs = map (arrays st) rs"
    using sim nr by (intro map_cong) auto
  show ?case
  proof (cases "matchNames (chainsOf st) checkPath (arrays st r)")
    case (Inl e)
    with sim show ?thesis by (simp add: split_beta split: sum.splits)
  next
    case (Inr left)
    with sim Cons.IH[OF d, of ?st1] rest show ?thesis
      by (simp add: split_beta split: sum.splits)
  qed
qed

lemma getPaths_itemOfRefs:
  "getPaths ty attr (itemOfRefs st item)
     = map (\<lambda>i. arrays st (pathRef i))
         (filter (\<lambda>i. refAttribute i = attr) (if ty = ALLOW then allowedRefs item else disallowedRefs item))"
  by (simp add: getPaths_def itemOfRefs_def filter_map comp_def)

lemma hasMatchingPathSt_sim:
  assumes "validItem (nextRef st) item"
  shows "fst (hasMatchingPathSt ty checkPath attr item st)
           = hasMatchingPath (schemaOfStore st) ty checkPath attr (itemOfRefs st item)"
proof -
  let ?source = "if ty = ALLOW then allowedRefs item else disallowedRefs item"
  let ?rs = "fst (copyPathsSt attr ?source st)" and ?st1 = "snd (copyPathsSt attr ?source st)"
  from assms have v: "\<forall>i\<in>set ?source. pathRef i < nextRef st"
    by (simp add: validItem_def)
  from copyPathsSt_contents[OF v, of attr]
  have c: "map (arrays ?st1) ?rs = getPaths ty attr (itemOfRefs st item)" and d: "distinct ?rs"
    by (simp_all add: getPaths_itemOfRefs)
  from copyPathsSt_unchanged[of "nextRef st" st attr ?source]
  have ch: "chainsOf ?st1 = chainsOf st"
    by (simp add: unchangedBelow_def)
  show ?thesis
    using matchPathsSt_sim[OF d, of checkPath ?st1] c ch
    by (simp add: hasMatchingPathSt_def getPathsSt_def hasMatchingPath_def schemaOfStore_def split_beta)
qed

lemma itemOfRefs_unchanged:
  "unchangedBelow k st st' \<Longrightarrow> validItem k item \<Longrightarrow> itemOfRefs st' item = itemOfRefs st item"
  by (simp add: itemOfRefs_def unchangedBelow_def validItem_def)

lemma anyMatchingPath_chains:
  "extensionChains s' = extensionChains s \<Longrightarrow>
     anyMatchingPath s' ty P A schemaItems = anyMatchingPath s ty P A schemaItems"
  by (induction schemaItems) (simp_all add: hasMatchingPath_def split: sum.splits)

lemma anyMatchingPathSt_sim:
  assumes "\<forall>item\<in>set schemaItems. validItem k item" and "k \<le> nextRef st"
  shows "fst (anyMatchingPathSt ty checkPath attr schemaItems st)
           = anyMatchingPath (schemaOfStore st) ty checkPath attr (map (itemOfRefs st) schemaItems)"
  using assms
proof (induction schemaItems arbitrary: st)
  case Nil
  then show ?case by simp
next
  case (Cons item rest)
  then have vi: "validItem k item" and vr: "\<forall>item\<in>set rest. validItem k item" by simp_all
  from vi Cons.prems(2) have vn: "validItem (nextRef st) item"
    unfolding validItem_def by (meson less_le_trans)
  let ?st1 = "snd (hasMatchingPathSt ty checkPath attr item st)"
  from hasMatchingPathSt_unchanged[OF Cons.prems(2), of ty checkPath attr item]
  have u: "unchangedBelow k st ?st1" .
  then have k1: "k \<le> nextRef ?st1"
    using Cons.prems(2) by (simp add: unchangedBelow_def)
  have items: "map (itemOfRefs ?st1) rest = map (itemOfRefs st) rest"
    using vr by (intro map_cong) (simp_all add: itemOfRefs_unchanged[OF u])
  have ch: "extensionChains (schemaOfStore ?st1) = extensionChains (schemaOfStore st)"
    using u by (simp add: schemaOfStore_def unchangedBelow_def)
  show ?case
    using hasMatchingPathSt_sim[OF vn, of ty checkPath attr] Cons.IH[OF vr k1] items
      anyMatchingPath_chains[OF ch]
    by (simp add: split_beta split: sum.splits)
qed

lemma getItemsSt_sim:
  "getItems (schemaOfStore st) ns = map_sum id (map (itemOfRefs st)) (getItemsSt st ns)"
  by (induction ns)
    (auto simp: getItem_def getItemSt_def hasItem_def hasItemSt_def schemaOfStore_def
      split: sum.splits option.splits)

lemma getItemsSt_valid:
  "validRefs st \<Longrightarrow> getItemsSt st ns = Inr schemaItems \<Longrightarrow>
     \<forall>item\<in>set schemaItems. validItem (nextRef st) item"
  by (induction ns arbitrary: schemaItems)
    (auto simp: getItemSt_def hasItemSt_def validRefs_def split: sum.splits option.splits if_splits)

text \<open>On a store whose entries point to allocated arrays, the two models of \<open>checkQuery\<close>
  and of \<open>checkAtPosition\<close> return the same.\<close>

lemma checkQuerySt_sim:
  assumes "validRefs st"
  shows "fst (checkQuerySt query st) = checkQuery query (schemaOfStore st)"
proof (cases "hasItemSt st (name query)")
  case False
  then show ?thesis
    by (simp add: checkQuerySt_def checkQuery_def hasItem_def hasItemSt_def schemaOfStore_def)
next
  case reg: True
  then have reg': "hasItem (schemaOfStore st) (name query)"
    by (simp add: hasItem_def hasItemSt_def schemaOfStore_def)
  let ?cp = "case inside query of Str str \<Rightarrow> splitSpace str | Arr a \<Rightarrow> a"
  show ?thesis
  proof (cases "chainsOf st (name query)")
    case None
    with reg reg' show ?thesis
      by (simp add: checkQuerySt_def checkQuery_def schemaOfStore_def)
  next
    case (Some chain)
    then have chain': "extensionChains (schemaOfStore st) (name query) = Some chain"
      by (simp add: schemaOfStore_def)
    show ?thesis
    proof (cases "getItemsSt st chain")
      case (Inl e)
      with reg reg' Some chain' getItemsSt_sim[of st chain] show ?thesis
        by (simp add: checkQuerySt_def checkQuery_def)
    next
      case (Inr schemaItems)
      from getItemsSt_valid[OF assms Inr]
      have v: "\<forall>item\<in>set schemaItems. validItem (nextRef st) item" .
      let ?st1 = "snd (anyMatchingPathSt DISALLOW ?cp (queryAttribute query) schemaItems st)"
      from anyMatchingPathSt_unchanged[of "nextRef st" st DISALLOW ?cp "queryAttribute query" schemaItems]
      have u: "unchangedBelow (nextRef st) st ?st1" by simp
      then have k1: "nextRef st \<le> nextRef ?st1" by (simp add: unchangedBelow_def)
      have items: "map (itemOfRefs ?st1) schemaItems = map (itemOfRefs st) schemaItems"
        using v by (intro map_cong) (simp_all add: itemOfRefs_unchanged[OF u])
      have ch: "extensionChains (schemaOfStore ?st1) = extensionChains (schemaOfStore st)"
        using u by (simp add: schemaOfStore_def unchangedBelow_def)
      show ?thesis
        using reg reg' Some chain' Inr getItemsSt_sim[of st chain]
          anyMatchingPathSt_sim[OF v order_refl, of DISALLOW ?cp "queryAttribute query"]
          anyMatchingPathSt_sim[OF v k1, of ALLOW ?cp "queryAttribute query"]
          items anyMatchingPath_chains[OF ch]
        by (simp add: checkQuerySt_def checkQuery_def Let_def split_beta split: sum.splits)
    qed
  qed
qed

lemma checkAtPositionSt_sim:
  "validRefs st \<Longrightarrow>
     fst (checkAtPositionSt pos n attr st) = checkAtPosition pos n attr (schemaOfStore st)"
  by (simp add: checkAtPositionSt_def checkAtPosition_def checkQuerySt_sim)
    (simp add: hasItem_def hasItemSt_def schemaOfStore_def)

lemma schemaOfStore_unchanged:
  assumes "validRefs st" and "unchangedBelow (nextRef st) st st'"
  shows "schemaOfStore st' = schemaOfStore st"
proof -
  have "map_option (itemOfRefs st') (itemRefs st n) = map_option (itemOfRefs st) (itemRefs st n)" for n
    using assms by (cases "itemRefs st n") (auto simp: validRefs_def itemOfRefs_unchanged)
  with assms(2) show ?thesis
    by (simp add: schemaOfStore_def unchangedBelow_def)
qed

section \<open>The store: adding rules\<close>

lemma addPathSt_effect:
  "\<exists>r. nextRef st \<le> r \<and> r < nextRef (snd (addPathSt m p attr item st)) \<and>
       arrays (snd (addPathSt m p attr item st)) r = pathNamesSt st p \<and>
       fst (addPathSt m p attr item st) =
         (case m of
            Allowed \<Rightarrow> item\<lparr>allowedRefs := allowedRefs item @ [\<lparr>pathRef = r, refAttribute = attr\<rparr>]\<rparr>
          | Disallowed \<Rightarrow> item\<lparr>disallowedRefs := disallowedRefs item @ [\<lparr>pathRef = r, refAttribute = attr\<rparr>]\<rparr>)"
proof (cases p)
  case (StrSt s)
  show ?thesis
    by (rule exI[of _ "Suc (nextRef st)"])
      (simp add: StrSt addPathSt_def allocSt_def sliceSt_def pathNamesSt_def split: member.splits)
next
  case (ArrSt a)
  show ?thesis
    by (rule exI[of _ "nextRef st"])
      (simp add: ArrSt addPathSt_def sliceSt_def pathNamesSt_def split: member.splits)
qed

lemma addPathSt_unchanged:
  "unchangedBelow (nextRef st) st (snd (addPathSt m p attr item st))"
  by (cases p) (simp_all add: addPathSt_def allocSt_def sliceSt_def unchangedBelow_def)

lemma itemOfRefs_arrays:
  "arrays st' = arrays st \<Longrightarrow> itemOfRefs st' item = itemOfRefs st item"
  by (simp add: itemOfRefs_def)

lemma validItem_mono: "validItem k item \<Longrightarrow> k \<le> k' \<Longrightarrow> validItem k' item"
  unfolding validItem_def by (meson less_le_trans)

text \<open>What one call does, for either member: the entry appended holds the address of a
  new array with the names of the path argument.\<close>

lemma addRuleSt_effect:
  assumes item: "itemRefs st (nameSt query) = Some item"
    and res: "res = (case getItemSt st (nameSt query) of
        Inl e \<Rightarrow> (Inl e, st)
      | Inr item \<Rightarrow>
          (case addPathSt m (insideSt query) (attributeSt query) item st of
             (item', st1) \<Rightarrow> (Inr (), st1\<lparr>itemRefs := (itemRefs st1)(nameSt query \<mapsto> item')\<rparr>)))"
  shows "fst res = Inr () \<and>
      (\<exists>r. nextRef st \<le> r \<and>
           arrays (snd res) r = pathNamesSt st (insideSt query) \<and>
           (\<forall>a xs. a < nextRef st \<longrightarrow>
              arrays (writeSt a xs (snd res)) r = pathNamesSt st (insideSt query)) \<and>
           itemRefs (snd res) =
             (itemRefs st)(nameSt query \<mapsto>
                (case m of
                   Allowed \<Rightarrow> item\<lparr>allowedRefs := allowedRefs item @
                     [\<lparr>pathRef = r, refAttribute = attributeSt query\<rparr>]\<rparr>
                 | Disallowed \<Rightarrow> item\<lparr>disallowedRefs := disallowedRefs item @
                     [\<lparr>pathRef = r, refAttribute = attributeSt query\<rparr>]\<rparr>))) \<and>
      chainsOf (snd res) = chainsOf st \<and>
      (\<forall>r<nextRef st. arrays (snd res) r = arrays st r)"
proof -
  from item have g: "getItemSt st (nameSt query) = Inr item"
    by (simp add: getItemSt_def hasItemSt_def)
  let ?a = "addPathSt m (insideSt query) (attributeSt query) item st"
  note u = addPathSt_unchanged[of st m "insideSt query" "attributeSt query" item]
  have r1: "fst res = Inr ()"
    by (simp add: res g split_beta)
  have r2: "chainsOf (snd res) = chainsOf st"
    using u by (simp add: res g split_beta unchangedBelow_def)
  have r3: "\<forall>r<nextRef st. arrays (snd res) r = arrays st r"
    using u by (simp add: res g split_beta unchangedBelow_def)
  from addPathSt_effect[of st m "insideSt query" "attributeSt query" item]
  obtain r where r: "nextRef st \<le> r" "arrays (snd ?a) r = pathNamesSt st (insideSt query)"
    "fst ?a = (case m of
                   Allowed \<Rightarrow> item\<lparr>allowedRefs := allowedRefs item @
                     [\<lparr>pathRef = r, refAttribute = attributeSt query\<rparr>]\<rparr>
                 | Disallowed \<Rightarrow> item\<lparr>disallowedRefs := disallowedRefs item @
                     [\<lparr>pathRef = r, refAttribute = attributeSt query\<rparr>]\<rparr>)"
    by auto
  have r4: "arrays (snd res) r = pathNamesSt st (insideSt query)"
    using r by (simp add: res g split_beta)
  have r5: "arrays (writeSt a xs (snd res)) r = pathNamesSt st (insideSt query)"
    if "a < nextRef st" for a xs
    using that r(1) r4 by (simp add: writeSt_def)
  have r6: "itemRefs (snd res) =
             (itemRefs st)(nameSt query \<mapsto>
                (case m of
                   Allowed \<Rightarrow> item\<lparr>allowedRefs := allowedRefs item @
                     [\<lparr>pathRef = r, refAttribute = attributeSt query\<rparr>]\<rparr>
                 | Disallowed \<Rightarrow> item\<lparr>disallowedRefs := disallowedRefs item @
                     [\<lparr>pathRef = r, refAttribute = attributeSt query\<rparr>]\<rparr>))"
    using u r(3) by (simp add: res g split_beta unchangedBelow_def)
  from r1 r2 r3 r(1) r4 r5 r6 show ?thesis
    by blast
qed

text \<open>
  Claim C7: \<open>allow\<close> and \<open>disallow\<close> raise \<open>schema-no-item\<close> when the name of the query is not
  registered, and leave everything as it was. When it is registered, they append one entry
  to the allowed (for \<open>disallow\<close>, the disallowed) collection of that entity and change no
  other entry and no other entity. The path of the entry is an independent copy: an array
  at an address that was not in use before the call, so not the array the caller passed;
  it holds the names of the path argument (a string split at the spaces, or the elements
  of the array passed), and still holds them after any array that existed before the call,
  the caller's among them, is given other elements. The chains and every array that
  existed before are the same.
\<close>

theorem allowSt_disallowSt_effect:
  "(\<not> hasItemSt st (nameSt query) \<longrightarrow>
      allowSt query st = (Inl SchemaNoItem, st) \<and> disallowSt query st = (Inl SchemaNoItem, st)) \<and>
   (\<forall>item. itemRefs st (nameSt query) = Some item \<longrightarrow>
      fst (allowSt query st) = Inr () \<and>
      (\<exists>r. nextRef st \<le> r \<and>
           arrays (snd (allowSt query st)) r = pathNamesSt st (insideSt query) \<and>
           (\<forall>a xs. a < nextRef st \<longrightarrow>
              arrays (writeSt a xs (snd (allowSt query st))) r = pathNamesSt st (insideSt query)) \<and>
           itemRefs (snd (allowSt query st)) =
             (itemRefs st)(nameSt query \<mapsto> item\<lparr>allowedRefs := allowedRefs item @
                [\<lparr>pathRef = r, refAttribute = attributeSt query\<rparr>]\<rparr>)) \<and>
      chainsOf (snd (allowSt query st)) = chainsOf st \<and>
      (\<forall>r<nextRef st. arrays (snd (allowSt query st)) r = arrays st r) \<and>
      fst (disallowSt query st) = Inr () \<and>
      (\<exists>r. nextRef st \<le> r \<and>
           arrays (snd (disallowSt query st)) r = pathNamesSt st (insideSt query) \<and>
           (\<forall>a xs. a < nextRef st \<longrightarrow>
              arrays (writeSt a xs (snd (disallowSt query st))) r = pathNamesSt st (insideSt query)) \<and>
           itemRefs (snd (disallowSt query st)) =
             (itemRefs st)(nameSt query \<mapsto> item\<lparr>disallowedRefs := disallowedRefs item @
                [\<lparr>pathRef = r, refAttribute = attributeSt query\<rparr>]\<rparr>)) \<and>
      chainsOf (snd (disallowSt query st)) = chainsOf st \<and>
      (\<forall>r<nextRef st. arrays (snd (disallowSt query st)) r = arrays st r))"
proof (intro conjI impI allI)
  fix item
  assume item: "itemRefs st (nameSt query) = Some item"
  note a = addRuleSt_effect[OF item, of "allowSt query st" Allowed, unfolded member.case]
  note d = addRuleSt_effect[OF item, of "disallowSt query st" Disallowed, unfolded member.case]
  have ra: "allowSt query st = (case getItemSt st (nameSt query) of
        Inl e \<Rightarrow> (Inl e, st)
      | Inr item \<Rightarrow>
          (case addPathSt Allowed (insideSt query) (attributeSt query) item st of
             (item', st1) \<Rightarrow> (Inr (), st1\<lparr>itemRefs := (itemRefs st1)(nameSt query \<mapsto> item')\<rparr>)))"
    by (simp add: allowSt_def)
  have rd: "disallowSt query st = (case getItemSt st (nameSt query) of
        Inl e \<Rightarrow> (Inl e, st)
      | Inr item \<Rightarrow>
          (case addPathSt Disallowed (insideSt query) (attributeSt query) item st of
             (item', st1) \<Rightarrow> (Inr (), st1\<lparr>itemRefs := (itemRefs st1)(nameSt query \<mapsto> item')\<rparr>)))"
    by (simp add: disallowSt_def)
  show "fst (allowSt query st) = Inr ()" "fst (disallowSt query st) = Inr ()"
    "chainsOf (snd (allowSt query st)) = chainsOf st"
    "chainsOf (snd (disallowSt query st)) = chainsOf st"
    using a[OF ra] d[OF rd] by blast+
  show "arrays (snd (allowSt query st)) r = arrays st r" if "r < nextRef st" for r
    using a[OF ra] that by blast
  show "arrays (snd (disallowSt query st)) r = arrays st r" if "r < nextRef st" for r
    using d[OF rd] that by blast
  show "\<exists>r. nextRef st \<le> r \<and>
           arrays (snd (allowSt query st)) r = pathNamesSt st (insideSt query) \<and>
           (\<forall>a xs. a < nextRef st \<longrightarrow>
              arrays (writeSt a xs (snd (allowSt query st))) r = pathNamesSt st (insideSt query)) \<and>
           itemRefs (snd (allowSt query st)) =
             (itemRefs st)(nameSt query \<mapsto> item\<lparr>allowedRefs := allowedRefs item @
                [\<lparr>pathRef = r, refAttribute = attributeSt query\<rparr>]\<rparr>)"
    using a[OF ra] by blast
  show "\<exists>r. nextRef st \<le> r \<and>
           arrays (snd (disallowSt query st)) r = pathNamesSt st (insideSt query) \<and>
           (\<forall>a xs. a < nextRef st \<longrightarrow>
              arrays (writeSt a xs (snd (disallowSt query st))) r = pathNamesSt st (insideSt query)) \<and>
           itemRefs (snd (disallowSt query st)) =
             (itemRefs st)(nameSt query \<mapsto> item\<lparr>disallowedRefs := disallowedRefs item @
                [\<lparr>pathRef = r, refAttribute = attributeSt query\<rparr>]\<rparr>)"
    using d[OF rd] by blast
qed (simp_all add: allowSt_def disallowSt_def getItemSt_def)

theorem allowSt_disallowSt_effect_witness:
  "\<not> hasItemSt newSchemaStore ''header'' \<and>
   allowSt \<lparr>nameSt = ''header'', insideSt = StrSt ''div p'', attributeSt = None\<rparr> newSchemaStore
     = (Inl SchemaNoItem, newSchemaStore) \<and>
   disallowSt \<lparr>nameSt = ''header'', insideSt = StrSt ''div p'', attributeSt = None\<rparr> newSchemaStore
     = (Inl SchemaNoItem, newSchemaStore) \<and>
   itemRefs newSchemaStore ''$text'' = Some \<lparr>allowedRefs = [], disallowedRefs = []\<rparr> \<and>
   nextRef newSchemaStore = 2 \<and>
   fst (allowSt \<lparr>nameSt = ''$text'', insideSt = StrSt ''div p'', attributeSt = Some ''bold''\<rparr>
          newSchemaStore) = Inr () \<and>
   itemRefs (snd (allowSt \<lparr>nameSt = ''$text'', insideSt = StrSt ''div p'', attributeSt = Some ''bold''\<rparr>
                     newSchemaStore)) ''$text''
     = Some \<lparr>allowedRefs = [\<lparr>pathRef = 3, refAttribute = Some ''bold''\<rparr>], disallowedRefs = []\<rparr> \<and>
   arrays (snd (allowSt \<lparr>nameSt = ''$text'', insideSt = StrSt ''div p'', attributeSt = Some ''bold''\<rparr>
                   newSchemaStore)) 3 = [''div'', ''p''] \<and>
   arrays (snd (allowSt \<lparr>nameSt = ''$text'', insideSt = StrSt ''div p'', attributeSt = Some ''bold''\<rparr>
                   newSchemaStore)) 1 = arrays newSchemaStore 1 \<and>
   arrays (snd (allocSt [''div'', ''p''] newSchemaStore)) 2 = [''div'', ''p''] \<and>
   nextRef (snd (allocSt [''div'', ''p''] newSchemaStore)) = 3 \<and>
   itemRefs (snd (disallowSt \<lparr>nameSt = ''$text'', insideSt = ArrSt 2, attributeSt = None\<rparr>
                     (snd (allocSt [''div'', ''p''] newSchemaStore)))) ''$text''
     = Some \<lparr>allowedRefs = [], disallowedRefs = [\<lparr>pathRef = 3, refAttribute = None\<rparr>]\<rparr> \<and>
   arrays (snd (disallowSt \<lparr>nameSt = ''$text'', insideSt = ArrSt 2, attributeSt = None\<rparr>
                   (snd (allocSt [''div'', ''p''] newSchemaStore)))) 2 = [''div'', ''p''] \<and>
   arrays (writeSt 2 [''h1'']
             (snd (disallowSt \<lparr>nameSt = ''$text'', insideSt = ArrSt 2, attributeSt = None\<rparr>
                     (snd (allocSt [''div'', ''p''] newSchemaStore))))) 2 = [''h1''] \<and>
   arrays (writeSt 2 [''h1'']
             (snd (disallowSt \<lparr>nameSt = ''$text'', insideSt = ArrSt 2, attributeSt = None\<rparr>
                     (snd (allocSt [''div'', ''p''] newSchemaStore))))) 3 = [''div'', ''p'']"
proof -
  let ?st0 = "snd (allocSt [''div'', ''p''] newSchemaStore)"
  let ?h = "\<lparr>nameSt = ''header'', insideSt = StrSt ''div p'', attributeSt = None\<rparr>"
  let ?s = "\<lparr>nameSt = ''$text'', insideSt = StrSt ''div p'', attributeSt = Some ''bold''\<rparr>"
  let ?q = "\<lparr>nameSt = ''$text'', insideSt = ArrSt 2, attributeSt = None\<rparr>"
  have h: "\<not> hasItemSt newSchemaStore ''header''"
    and t: "itemRefs newSchemaStore ''$text'' = Some \<lparr>allowedRefs = [], disallowedRefs = []\<rparr>"
    and n: "nextRef newSchemaStore = 2"
    by (simp_all add: hasItemSt_def newSchemaStore_fields)
  have t0: "itemRefs ?st0 ''$text'' = Some \<lparr>allowedRefs = [], disallowedRefs = []\<rparr>"
    and n0: "nextRef ?st0 = 3" and a0: "arrays ?st0 2 = [''div'', ''p'']"
    by (simp_all add: allocSt_def newSchemaStore_fields)
  have e: "itemRefs (snd (allowSt ?s newSchemaStore)) ''$text''
             = Some \<lparr>allowedRefs = [\<lparr>pathRef = 3, refAttribute = Some ''bold''\<rparr>], disallowedRefs = []\<rparr>"
    "arrays (snd (allowSt ?s newSchemaStore)) 3 = [''div'', ''p'']"
    by (simp_all add: allowSt_def getItemSt_def hasItemSt_def addPathSt_def allocSt_def
        sliceSt_def newSchemaStore_fields)
  have e0: "itemRefs (snd (disallowSt ?q ?st0)) ''$text''
             = Some \<lparr>allowedRefs = [], disallowedRefs = [\<lparr>pathRef = 3, refAttribute = None\<rparr>]\<rparr>"
    "arrays (writeSt 2 [''h1''] (snd (disallowSt ?q ?st0))) 2 = [''h1'']"
    "arrays (writeSt 2 [''h1''] (snd (disallowSt ?q ?st0))) 3 = [''div'', ''p'']"
    by (simp_all add: disallowSt_def getItemSt_def hasItemSt_def addPathSt_def allocSt_def
        sliceSt_def writeSt_def newSchemaStore_fields)
  show ?thesis
    using h t n t0 n0 a0 e e0
      allowSt_disallowSt_effect[of newSchemaStore ?h]
      allowSt_disallowSt_effect[of newSchemaStore ?s]
      allowSt_disallowSt_effect[of ?st0 ?q]
    by simp
qed

text \<open>The operations over the store and over the values agree, and keep the entries valid.\<close>

lemma schemaOfStore_items:
  "items (schemaOfStore st) n = map_option (itemOfRefs st) (itemRefs st n)"
  by (simp add: schemaOfStore_def)

lemma pathNames_queryOfSt:
  "pathNames (inside (queryOfSt st query)) = pathNamesSt st (insideSt query)"
  by (simp add: queryOfSt_def pathNames_def pathNamesSt_def split: pathArgSt.splits)

lemma itemOfRefs_update:
  "itemOfRefs (st\<lparr>itemRefs := x\<rparr>) = itemOfRefs st"
  "itemOfRefs (st\<lparr>chainsOf := c\<rparr>) = itemOfRefs st"
  by (rule ext, simp add: itemOfRefs_def)+

lemma registerItemSt_sim:
  "fst (registerItemSt itemName isExtending st) = fst (registerItem itemName isExtending (schemaOfStore st)) \<and>
   schemaOfStore (snd (registerItemSt itemName isExtending st))
     = snd (registerItem itemName isExtending (schemaOfStore st))"
proof -
  have h: "hasItem (schemaOfStore st) n = hasItemSt st n" for n st
    by (simp add: hasItem_def hasItemSt_def schemaOfStore_def)
  have ho: "hasItemOpt (schemaOfStore st) b = hasItemOptSt st b" for b st
    by (simp add: hasItemOpt_def hasItemOptSt_def h split: option.splits)
  have n: "itemOfRefs st newSchemaItemRef = newSchemaItem" for st
    by (simp add: itemOfRefs_def newSchemaItemRef_def newSchemaItem_def)
  have upd: "schemaOfStore (st\<lparr>itemRefs := (itemRefs st)(itemName \<mapsto> newSchemaItemRef)\<rparr>)
               = (schemaOfStore st)\<lparr>items := (items (schemaOfStore st))(itemName \<mapsto> newSchemaItem)\<rparr>"
    by (simp add: schemaOfStore_def fun_eq_iff itemOfRefs_update n)
  have ch: "schemaOfStore (st'\<lparr>chainsOf := c\<rparr>) = (schemaOfStore st')\<lparr>extensionChains := c\<rparr>" for st' c
    by (simp add: schemaOfStore_def itemOfRefs_update)
  have ce: "extensionChains (schemaOfStore st') = chainsOf st'" for st'
    by (simp add: schemaOfStore_def)
  let ?st1 = "st\<lparr>itemRefs := (itemRefs st)(itemName \<mapsto> newSchemaItemRef)\<rparr>"
  show ?thesis
    unfolding registerItemSt_def registerItem_def Let_def h ho upd[symmetric]
    by (cases "chainsOf ?st1 (the isExtending)") (simp_all add: ch ce h ho)
qed

lemma registerItemSt_valid:
  "validRefs st \<Longrightarrow> validRefs (snd (registerItemSt itemName isExtending st))"
  by (auto simp: registerItemSt_def validRefs_def validItem_def newSchemaItemRef_def Let_def
      split: option.splits if_splits)

lemma queryOfSt_fields:
  "name (queryOfSt st query) = nameSt query"
  "queryAttribute (queryOfSt st query) = attributeSt query"
  by (simp_all add: queryOfSt_def)

lemma allowSt_sim:
  assumes "validRefs st"
  shows "fst (allowSt query st) = fst (allow (queryOfSt st query) (schemaOfStore st)) \<and>
         schemaOfStore (snd (allowSt query st)) = snd (allow (queryOfSt st query) (schemaOfStore st)) \<and>
         validRefs (snd (allowSt query st)) \<and>
         fst (disallowSt query st) = fst (disallow (queryOfSt st query) (schemaOfStore st)) \<and>
         schemaOfStore (snd (disallowSt query st)) = snd (disallow (queryOfSt st query) (schemaOfStore st)) \<and>
         validRefs (snd (disallowSt query st))"
proof (cases "itemRefs st (nameSt query)")
  case None
  with assms show ?thesis
    by (simp add: allowSt_def allow_def disallowSt_def disallow_def getItemSt_def getItem_def
        hasItemSt_def hasItem_def schemaOfStore_items queryOfSt_fields)
next
  case (Some item)
  then have g: "getItemSt st (nameSt query) = Inr item"
    and g': "getItem (schemaOfStore st) (nameSt query) = Inr (itemOfRefs st item)"
    by (simp_all add: getItemSt_def getItem_def hasItemSt_def hasItem_def schemaOfStore_items)
  from assms Some have vi: "validItem (nextRef st) item"
    by (simp add: validRefs_def)
  have step: "schemaOfStore (st1\<lparr>itemRefs := (itemRefs st1)(nameSt query \<mapsto> item')\<rparr>)
                = (schemaOfStore st)\<lparr>items := (items (schemaOfStore st))(nameSt query \<mapsto> new)\<rparr> \<and>
              validRefs (st1\<lparr>itemRefs := (itemRefs st1)(nameSt query \<mapsto> item')\<rparr>)"
    if u: "unchangedBelow (nextRef st) st st1" and v': "validItem (nextRef st1) item'"
      and new: "itemOfRefs st1 item' = new" for st1 item' new
  proof
    have same: "map_option (itemOfRefs st1) (itemRefs st n) = map_option (itemOfRefs st) (itemRefs st n)" for n
      using assms u by (cases "itemRefs st n") (auto simp: validRefs_def itemOfRefs_unchanged)
    from u have ir: "itemRefs st1 = itemRefs st" and ch: "chainsOf st1 = chainsOf st"
      and le: "nextRef st \<le> nextRef st1"
      by (simp_all add: unchangedBelow_def)
    note io = itemOfRefs_update(1)
    show "schemaOfStore (st1\<lparr>itemRefs := (itemRefs st1)(nameSt query \<mapsto> item')\<rparr>)
            = (schemaOfStore st)\<lparr>items := (items (schemaOfStore st))(nameSt query \<mapsto> new)\<rparr>"
      using same new by (auto simp: schemaOfStore_def ir ch io)
    show "validRefs (st1\<lparr>itemRefs := (itemRefs st1)(nameSt query \<mapsto> item')\<rparr>)"
      using assms v' le by (auto simp: validRefs_def ir intro: validItem_mono)
  qed
  have conv: "itemOfRefs st1 item = itemOfRefs st item" if "unchangedBelow (nextRef st) st st1" for st1
    using that vi by (rule itemOfRefs_unchanged)
  let ?a = "addPathSt Allowed (insideSt query) (attributeSt query) item st"
  let ?d = "addPathSt Disallowed (insideSt query) (attributeSt query) item st"
  note ua = addPathSt_unchanged[of st Allowed "insideSt query" "attributeSt query" item]
  note ud = addPathSt_unchanged[of st Disallowed "insideSt query" "attributeSt query" item]
  from ua ud have lea: "nextRef st \<le> nextRef (snd ?a)" and led: "nextRef st \<le> nextRef (snd ?d)"
    by (simp_all add: unchangedBelow_def)
  from addPathSt_effect[of st Allowed "insideSt query" "attributeSt query" item]
  obtain r where r: "r < nextRef (snd ?a)" "arrays (snd ?a) r = pathNamesSt st (insideSt query)"
    "fst ?a = item\<lparr>allowedRefs := allowedRefs item @ [\<lparr>pathRef = r, refAttribute = attributeSt query\<rparr>]\<rparr>"
    by auto
  from addPathSt_effect[of st Disallowed "insideSt query" "attributeSt query" item]
  obtain q where q: "q < nextRef (snd ?d)" "arrays (snd ?d) q = pathNamesSt st (insideSt query)"
    "fst ?d = item\<lparr>disallowedRefs := disallowedRefs item @ [\<lparr>pathRef = q, refAttribute = attributeSt query\<rparr>]\<rparr>"
    by auto
  have va: "validItem (nextRef (snd ?a)) (fst ?a)"
    using validItem_mono[OF vi lea] r by (auto simp: validItem_def)
  have vd: "validItem (nextRef (snd ?d)) (fst ?d)"
    using validItem_mono[OF vi led] q by (auto simp: validItem_def)
  have na: "itemOfRefs (snd ?a) (fst ?a)
              = addAllowed (inside (queryOfSt st query)) (attributeSt query) (itemOfRefs st item)"
    using conv[OF ua] r
    by (simp add: itemOfRefs_def addAllowed_def addPath_def pathNames_queryOfSt[unfolded pathNames_def])
  have nd: "itemOfRefs (snd ?d) (fst ?d)
              = addDisallowed (inside (queryOfSt st query)) (attributeSt query) (itemOfRefs st item)"
    using conv[OF ud] q
    by (simp add: itemOfRefs_def addDisallowed_def addPath_def pathNames_queryOfSt[unfolded pathNames_def])
  show ?thesis
    using step[OF ua va na] step[OF ud vd nd]
    by (simp add: allowSt_def allow_def disallowSt_def disallow_def g g' split_beta queryOfSt_fields)
qed

lemma emptyStore_sim: "schemaOfStore emptyStore = emptySchema" "validRefs emptyStore"
  by (simp_all add: schemaOfStore_def emptyStore_def emptySchema_def validRefs_def)

lemma newSchemaStore_sim: "schemaOfStore newSchemaStore = newSchema" "validRefs newSchemaStore"
proof -
  let ?st1 = "snd (registerItemSt ''$inline'' None emptyStore)"
  let ?st2 = "snd (registerItemSt ''$block'' None ?st1)"
  let ?st3 = "snd (registerItemSt ''$text'' (Some ''$inline'') ?st2)"
  let ?q = "\<lparr>nameSt = ''$inline'', insideSt = StrSt ''$block'', attributeSt = None\<rparr>"
  have v3: "validRefs ?st3"
    by (intro registerItemSt_valid emptyStore_sim)
  have s3: "schemaOfStore ?st3 =
      snd (registerItem ''$text'' (Some ''$inline'')
        (snd (registerItem ''$block'' None (snd (registerItem ''$inline'' None emptySchema)))))"
    by (simp add: registerItemSt_sim emptyStore_sim)
  from allowSt_sim[OF v3, of ?q] s3
  show "schemaOfStore newSchemaStore = newSchema" "validRefs newSchemaStore"
    by (simp_all add: newSchemaStore_def newSchema_def Let_def queryOfSt_def)
qed

text \<open>
  Claim C10: \<open>checkQuery\<close> and \<open>checkAtPosition\<close> change nothing of the schema: the item map
  and the chains are the same after the call, and so is every array that existed before
  it, the stored rule paths among them (the scan shifts copies, at new addresses); hence
  the schema that the store holds is the same.
\<close>

theorem checkQuery_no_side_effect:
  "itemRefs (snd (checkQuerySt query st)) = itemRefs st \<and>
   chainsOf (snd (checkQuerySt query st)) = chainsOf st \<and>
   (\<forall>r<nextRef st. arrays (snd (checkQuerySt query st)) r = arrays st r) \<and>
   itemRefs (snd (checkAtPositionSt pos n attr st)) = itemRefs st \<and>
   chainsOf (snd (checkAtPositionSt pos n attr st)) = chainsOf st \<and>
   (\<forall>r<nextRef st. arrays (snd (checkAtPositionSt pos n attr st)) r = arrays st r) \<and>
   (validRefs st \<longrightarrow>
      schemaOfStore (snd (checkQuerySt query st)) = schemaOfStore st \<and>
      schemaOfStore (snd (checkAtPositionSt pos n attr st)) = schemaOfStore st)"
proof -
  note q = checkQuerySt_unchanged[of st query]
  note p = checkAtPositionSt_unchanged[of st pos n attr]
  have "schemaOfStore (snd (checkQuerySt query st)) = schemaOfStore st"
    "schemaOfStore (snd (checkAtPositionSt pos n attr st)) = schemaOfStore st" if "validRefs st"
    using that q p by (simp_all only: schemaOfStore_unchanged)
  with q p show ?thesis
    by (simp add: unchangedBelow_def)
qed

theorem checkQuery_no_side_effect_witness:
  "nextRef newSchemaStore = 2 \<and> validRefs newSchemaStore \<and>
   fst (checkQuerySt \<lparr>name = ''$text'', inside = Arr [''$block''], queryAttribute = None\<rparr> newSchemaStore)
     = Inr True \<and>
   arrays (snd (checkQuerySt \<lparr>name = ''$text'', inside = Arr [''$block''], queryAttribute = None\<rparr>
                  newSchemaStore)) 1 = [''$block''] \<and>
   arrays (snd (checkQuerySt \<lparr>name = ''$text'', inside = Arr [''$block''], queryAttribute = None\<rparr>
                  newSchemaStore)) 2 = [] \<and>
   itemRefs (snd (checkQuerySt \<lparr>name = ''$text'', inside = Arr [''$block''], queryAttribute = None\<rparr>
                  newSchemaStore)) = itemRefs newSchemaStore \<and>
   schemaOfStore (snd (checkQuerySt \<lparr>name = ''$text'', inside = Arr [''$block''], queryAttribute = None\<rparr>
                  newSchemaStore)) = newSchema \<and>
   schemaOfStore (snd (checkAtPositionSt (Position (Some (Element ''$block'' None))) ''$text'' None
                  newSchemaStore)) = newSchema"
proof -
  let ?q = "\<lparr>name = ''$text'', inside = Arr [''$block''], queryAttribute = None\<rparr>"
  have n: "nextRef newSchemaStore = 2" and a: "arrays newSchemaStore 1 = [''$block'']"
    by (simp_all add: newSchemaStore_fields)
  have r: "fst (checkQuerySt ?q newSchemaStore) = Inr True"
    "arrays (snd (checkQuerySt ?q newSchemaStore)) 2 = []"
    by (simp_all add: checkQuerySt_def hasItemSt_def getItemSt_def hasMatchingPathSt_def getPathsSt_def
        sliceSt_def shiftSt_def headInChain_def newSchemaStore_fields Let_def)
  show ?thesis
    using n a r newSchemaStore_sim
      checkQuery_no_side_effect[of ?q newSchemaStore "Position (Some (Element ''$block'' None))"
        "''$text''" None]
    by simp
qed

end
